theory Spec2Isabelle
  imports Main "HOL-Library.Word" "HOL-Library.Sublist"
begin

section \<open>Constants of the splitter\<close>

text \<open>
  The module constants of \<^verbatim>\<open>core.py\<close>. Python integers are unbounded, so they are
  \<^typ>\<open>int\<close> here.
\<close>

definition ONE_KB :: int where
  "ONE_KB = 2 ^ 10"

definition THIRTY_TWO_KB :: int where
  "THIRTY_TWO_KB = 32 * ONE_KB"

definition SIXTY_FOUR_KB :: int where
  "SIXTY_FOUR_KB = 64 * ONE_KB"

definition ONE_MB :: int where
  "ONE_MB = 2 ^ 20"

definition FOUR_GB :: int where
  "FOUR_GB = 4 * 2 ^ 30"

definition MAX_SPLIT_SIZE :: int where
  "MAX_SPLIT_SIZE = FOUR_GB - SIXTY_FOUR_KB"

section \<open>Errors\<close>

text \<open>
  Every exception the modelled code can raise is a value. The spec's \<open>NotFound\<close> is
  Python's \<^verbatim>\<open>FileNotFoundError\<close>.
\<close>

datatype error =
    ZeroDivisionError
  | OverflowError
  | ValueError
  | FileNotFoundError
  | IsADirectoryError
  | NotADirectoryError
  | FileExistsError

section \<open>Python's true division and \<^verbatim>\<open>math.ceil\<close>\<close>

text \<open>
  \<^verbatim>\<open>filesize / MAX_SPLIT_SIZE\<close> divides two Python integers into a float: the IEEE 754
  binary64 number nearest to the exact quotient, ties to even, and \<^verbatim>\<open>OverflowError\<close>
  when that number would not be finite. A float is kept exactly, as a mantissa and a binary
  exponent: \<open>mant * 2 ^ expo\<close>.
\<close>

record pyfloat =
  mant :: int
  expo :: int

text \<open>\<^verbatim>\<open>int.bit_length\<close> of a non-negative integer.\<close>

fun bit_length :: "nat \<Rightarrow> nat" where
  "bit_length n = (if n = 0 then 0 else Suc (bit_length (n div 2)))"

declare bit_length.simps [simp del]

text \<open>The integer nearest to \<open>n / d\<close> for \<open>d > 0\<close>, a tie going to the even neighbour.\<close>

definition round_half_even :: "int \<Rightarrow> int \<Rightarrow> int" where
  "round_half_even n d =
     (let q = n div d; r = n mod d
      in if 2 * r < d then q
         else if d < 2 * r then q + 1
         else if even q then q else q + 1)"

text \<open>For \<open>x > 0\<close> and \<open>y > 0\<close>, the exponent \<open>e\<close> with \<open>2 ^ e \<le> x / y < 2 ^ (e + 1)\<close>.\<close>

definition float_exponent :: "int \<Rightarrow> int \<Rightarrow> int" where
  "float_exponent x y =
     (let d = int (bit_length (nat x)) - int (bit_length (nat y))
      in if (if 0 \<le> d then y * 2 ^ nat d \<le> x else y \<le> x * 2 ^ nat (- d))
         then d else d - 1)"

text \<open>
  The quotient of two positive integers as a binary64 number: 53 significant bits in the
  normal range, multiples of \<open>2 ^ - 1074\<close> below it, overflow from \<open>2 ^ 1024\<close> on.
\<close>

definition truediv_pos :: "int \<Rightarrow> int \<Rightarrow> error + pyfloat" where
  "truediv_pos x y =
     (let e = float_exponent x y;
          p = max (e - 52) (- 1074);
          m = (if 0 \<le> p then round_half_even x (y * 2 ^ nat p)
               else round_half_even (x * 2 ^ nat (- p)) y)
      in if 0 \<le> p \<and> 2 ^ 1024 \<le> m * 2 ^ nat p then Inl OverflowError
         else Inr \<lparr>mant = m, expo = p\<rparr>)"

definition truediv :: "int \<Rightarrow> int \<Rightarrow> error + pyfloat" where
  "truediv a b =
     (if b = 0 then Inl ZeroDivisionError
      else if a = 0 then Inr \<lparr>mant = 0, expo = 0\<rparr>
      else case truediv_pos \<bar>a\<bar> \<bar>b\<bar> of
             Inl err \<Rightarrow> Inl err
           | Inr f \<Rightarrow> Inr (if (a < 0) = (b < 0) then f else f\<lparr>mant := - mant f\<rparr>))"

text \<open>\<^verbatim>\<open>math.ceil\<close> of a finite float is the exact integer ceiling of its value.\<close>

definition math_ceil :: "pyfloat \<Rightarrow> int" where
  "math_ceil f =
     (if 0 \<le> expo f then mant f * 2 ^ nat (expo f)
      else - ((- mant f) div 2 ^ nat (- expo f)))"

text \<open>Line 59: \<^verbatim>\<open>num_splits = math.ceil(filesize / MAX_SPLIT_SIZE)\<close>.\<close>

definition num_splits :: "int \<Rightarrow> error + int" where
  "num_splits filesize =
     (case truediv filesize MAX_SPLIT_SIZE of
        Inl err \<Rightarrow> Inl err
      | Inr q \<Rightarrow> Inr (math_ceil q))"

section \<open>Path functions of the standard library\<close>

text \<open>
  \<^verbatim>\<open>os.path\<close> is not part of the repository. Its POSIX functions are modelled after
  their reference implementation, which slices a path at \<^verbatim>\<open>p.rfind(c) + 1\<close>:
  \<open>upto_last c p\<close> is \<^verbatim>\<open>p[:p.rfind(c) + 1]\<close> and \<open>after_last c p\<close> is
  \<^verbatim>\<open>p[p.rfind(c) + 1:]\<close>.
\<close>

definition upto_last :: "char \<Rightarrow> string \<Rightarrow> string" where
  "upto_last c p = rev (dropWhile (\<lambda>x. x \<noteq> c) (rev p))"

definition after_last :: "char \<Rightarrow> string \<Rightarrow> string" where
  "after_last c p = rev (takeWhile (\<lambda>x. x \<noteq> c) (rev p))"

definition rstrip :: "char \<Rightarrow> string \<Rightarrow> string" where
  "rstrip c s = rev (dropWhile (\<lambda>x. x = c) (rev s))"

definition lstrip :: "char \<Rightarrow> string \<Rightarrow> string" where
  "lstrip c s = dropWhile (\<lambda>x. x = c) s"

definition basename :: "string \<Rightarrow> string" where
  "basename p = after_last CHR ''/'' p"

text \<open>
  \<^verbatim>\<open>head = p[:i]; if head and head != sep*len(head): head = head.rstrip(sep)\<close>.
\<close>

definition dirname :: "string \<Rightarrow> string" where
  "dirname p =
     (let head = upto_last CHR ''/'' p
      in if head \<noteq> [] \<and> head \<noteq> replicate (length head) CHR ''/''
         then rstrip CHR ''/'' head else head)"

text \<open>
  \<^verbatim>\<open>splitext\<close> cuts at the last dot of the last path component, unless only dots
  precede it there: then, and when there is no dot, the extension is empty.
\<close>

definition splitext :: "string \<Rightarrow> string \<times> string" where
  "splitext p =
     (let b = after_last CHR ''/'' p;
          pre = butlast (upto_last CHR ''.'' b)
      in if CHR ''.'' \<in> set b \<and> (\<exists>c \<in> set pre. c \<noteq> CHR ''.'')
         then (upto_last CHR ''/'' p @ pre, CHR ''.'' # after_last CHR ''.'' b)
         else (p, []))"

text \<open>\<^verbatim>\<open>os.path.join\<close> of two components.\<close>

definition join :: "string \<Rightarrow> string \<Rightarrow> string" where
  "join a b =
     (if b \<noteq> [] \<and> hd b = CHR ''/'' then b
      else if a = [] \<or> last a = CHR ''/'' then a @ b
      else a @ ''/'' @ b)"

text \<open>\<^verbatim>\<open>str.endswith\<close>.\<close>

definition endswith :: "string \<Rightarrow> string \<Rightarrow> bool" where
  "endswith s suf = (length suf \<le> length s \<and> drop (length s - length suf) s = suf)"

section \<open>Fragment names\<close>

text \<open>
  \<^verbatim>\<open>f"{split:02}"\<close> for a non-negative index: its decimal digits, filled with zeros on
  the left up to two characters.
\<close>

definition digit_char :: "nat \<Rightarrow> char" where
  "digit_char d = ''0123456789'' ! d"

fun decimal :: "nat \<Rightarrow> string" where
  "decimal n = (if n < 10 then [digit_char n] else decimal (n div 10) @ [digit_char (n mod 10)])"

declare decimal.simps [simp del]

definition format_02 :: "nat \<Rightarrow> string" where
  "format_02 n = (let s = decimal n in replicate (2 - length s) CHR ''0'' @ s)"

section \<open>The file system seen by the splitter\<close>

text \<open>
  The splitter touches the file system through \<^verbatim>\<open>os.makedirs\<close> and \<^verbatim>\<open>open\<close>. The
  state is the set of directories and the contents of the files, both keyed by the path
  strings the program uses. Permissions and device failures are outside this model.
\<close>

type_synonym byte = "8 word"

record filesystem =
  dirs :: "string set"
  files :: "string \<rightharpoonup> byte list"

text \<open>\<^verbatim>\<open>os.makedirs(d, exist_ok=True)\<close>: an existing directory is reused, a file in the way is an error.\<close>

definition makedirs :: "filesystem \<Rightarrow> string \<Rightarrow> error + filesystem" where
  "makedirs fs d =
     (if d \<in> dom (files fs) then Inl FileExistsError
      else Inr (fs\<lparr>dirs := insert d (dirs fs)\<rparr>))"

text \<open>\<^verbatim>\<open>open(p, "rb")\<close> gives the stream of the file's bytes.\<close>

definition open_rb :: "filesystem \<Rightarrow> string \<Rightarrow> error + byte list" where
  "open_rb fs p =
     (case files fs p of
        Some content \<Rightarrow> Inr content
      | None \<Rightarrow> if p \<in> dirs fs then Inl IsADirectoryError else Inl FileNotFoundError)"

text \<open>\<^verbatim>\<open>open(p, "wb")\<close> creates the file or truncates it.\<close>

definition open_wb :: "filesystem \<Rightarrow> string \<Rightarrow> error + filesystem" where
  "open_wb fs p =
     (if p \<in> dirs fs then Inl IsADirectoryError
      else Inr (fs\<lparr>files := (files fs)(p \<mapsto> [])\<rparr>))"

text \<open>
  \<^verbatim>\<open>infile.read(n)\<close> on the rest of the stream: the chunk and what is left. A size of
  \<open>-1\<close> reads to the end, a smaller one is a \<^verbatim>\<open>ValueError\<close>.
\<close>

definition stream_read :: "int \<Rightarrow> byte list \<Rightarrow> error + (byte list \<times> byte list)" where
  "stream_read n rest =
     (if n < - 1 then Inl ValueError
      else if n = - 1 then Inr (rest, [])
      else Inr (take (nat n) rest, drop (nat n) rest))"

section \<open>The splitter\<close>

text \<open>
  The inner \<^verbatim>\<open>while\<close> loop of \<^verbatim>\<open>split_file\<close> (lines 86 to 97). It returns the error
  of a failed read, if any, the rest of the input stream, the bytes written to the
  fragment and the running total.
\<close>

function copy_chunks ::
  "int \<Rightarrow> byte list \<Rightarrow> int \<Rightarrow> byte list \<Rightarrow> int \<Rightarrow> error option \<times> byte list \<times> byte list \<times> int" where
  "copy_chunks buf_size infile bytes_written outfile total_bytes_written =
     (if bytes_written < MAX_SPLIT_SIZE then
        (case stream_read buf_size infile of
           Inl err \<Rightarrow> (Some err, infile, outfile, total_bytes_written)
         | Inr (chunk, infile') \<Rightarrow>
             if chunk = [] then (None, infile', outfile, total_bytes_written)
             else copy_chunks buf_size infile' (bytes_written + int (length chunk))
                    (outfile @ chunk) (total_bytes_written + int (length chunk)))
      else (None, infile, outfile, total_bytes_written))"
  by pat_completeness auto
termination
  by (relation "measure (\<lambda>(b, i, w, out, t). nat (MAX_SPLIT_SIZE - w))") auto

declare copy_chunks.simps [simp del]

text \<open>
  One progress line (lines 99 to 107). The elapsed time depends on the wall clock and is
  not part of the model; \<open>line_end\<close> is the \<^verbatim>\<open>end\<close> argument of \<^verbatim>\<open>print\<close>.
\<close>

record report =
  split_number :: int
  splits :: int
  progress :: pyfloat
  bytes_total :: int
  bytes_filesize :: int
  name :: string
  line_end :: char

text \<open>The \<^verbatim>\<open>for split in range(num_splits)\<close> loop (lines 79 to 107).\<close>

fun split_loop ::
  "string \<Rightarrow> string \<Rightarrow> int \<Rightarrow> int \<Rightarrow> int \<Rightarrow> nat list \<Rightarrow>
   filesystem \<Rightarrow> byte list \<Rightarrow> int \<Rightarrow> report list \<Rightarrow> error option \<times> filesystem \<times> report list" where
  "split_loop split_dir filename filesize buf_size n [] fs infile total_bytes_written out =
     (None, fs, out)"
| "split_loop split_dir filename filesize buf_size n (split # rest) fs infile total_bytes_written out =
     (let split_path = join split_dir (format_02 split)
      in case open_wb fs split_path of
           Inl err \<Rightarrow> (Some err, fs, out)
         | Inr fs1 \<Rightarrow>
             (case copy_chunks buf_size infile 0 [] total_bytes_written of
                (failed, infile', outfile, total') \<Rightarrow>
                  (let fs2 = fs1\<lparr>files := (files fs1)(split_path \<mapsto> outfile)\<rparr>
                   in case failed of
                        Some err \<Rightarrow> (Some err, fs2, out)
                      | None \<Rightarrow>
                          (case truediv total' filesize of
                             Inl err \<Rightarrow> (Some err, fs2, out)
                           | Inr p \<Rightarrow>
                               split_loop split_dir filename filesize buf_size n rest fs2 infile' total'
                                 (out @ [\<lparr>split_number = int split + 1, splits = n, progress = p,
                                           bytes_total = total', bytes_filesize = filesize,
                                           name = filename,
                                           line_end = (if total' < filesize then CHR 0x0D else CHR 0x0A)\<rparr>])))))"

text \<open>The name of the split directory (lines 63 to 68).\<close>

definition split_dir_of :: "string \<Rightarrow> string" where
  "split_dir_of filepath =
     (let parent_dir = dirname filepath;
          file_extension = lstrip CHR ''.'' (snd (splitext filepath));
          filename_without_extension = fst (splitext (basename filepath))
      in join parent_dir (filename_without_extension @ ''.split.'' @ file_extension))"

text \<open>
  \<^verbatim>\<open>split_file\<close>: the file system after the call, the progress lines printed, and the
  returned path or the exception raised.
\<close>

definition split_file ::
  "filesystem \<Rightarrow> string \<Rightarrow> int \<Rightarrow> int \<Rightarrow> filesystem \<times> report list \<times> (error + string)" where
  "split_file fs filepath filesize buf_size =
     (let filename = basename filepath
      in case num_splits filesize of
           Inl err \<Rightarrow> (fs, [], Inl err)
         | Inr n \<Rightarrow>
             (let split_dir = split_dir_of filepath
              in case makedirs fs split_dir of
                   Inl err \<Rightarrow> (fs, [], Inl err)
                 | Inr fs1 \<Rightarrow>
                     (case open_rb fs1 filepath of
                        Inl err \<Rightarrow> (fs1, [], Inl err)
                      | Inr infile \<Rightarrow>
                          (case split_loop split_dir filename filesize buf_size n [0..<nat n] fs1 infile 0 [] of
                             (Some err, fs2, out) \<Rightarrow> (fs2, out, Inl err)
                           | (None, fs2, out) \<Rightarrow> (fs2, out, Inr split_dir)))))"

text \<open>The default buffer size of the signature.\<close>

definition split_file_default ::
  "filesystem \<Rightarrow> string \<Rightarrow> int \<Rightarrow> filesystem \<times> report list \<times> (error + string)" where
  "split_file_default fs filepath filesize = split_file fs filepath filesize THIRTY_TWO_KB"

section \<open>The file enumerator\<close>

text \<open>
  The enumerator only reads. What it sees of the file system is, for each path, the
  tree found there, if any: a file, or a directory with its entries in the order in
  which the directory lists them. Every entry that is not a directory counts as a file, as
  \<^verbatim>\<open>os.walk\<close> classifies them.
\<close>

datatype node = File "byte list" | Dir "(string \<times> node) list"

type_synonym tree_fs = "string \<rightharpoonup> node"

fun is_dir :: "node \<Rightarrow> bool" where
  "is_dir (Dir entries) = True"
| "is_dir (File content) = False"

text \<open>\<^verbatim>\<open>os.scandir\<close> lists a directory and fails on anything else.\<close>

definition scandir :: "tree_fs \<Rightarrow> string \<Rightarrow> error + (string \<times> node) list" where
  "scandir fs top_dir =
     (case fs top_dir of
        None \<Rightarrow> Inl FileNotFoundError
      | Some (File content) \<Rightarrow> Inl NotADirectoryError
      | Some (Dir entries) \<Rightarrow> Inr entries)"

text \<open>
  \<^verbatim>\<open>os.walk\<close>, top down: the triple of a directory (its path, the names of its
  subdirectories, the names of its other entries), then the walks of its subdirectories
  in listing order.
\<close>

fun walk_dir :: "string \<Rightarrow> (string \<times> node) list \<Rightarrow> (string \<times> string list \<times> string list) list"
  and walk_subdirs :: "string \<Rightarrow> (string \<times> node) list \<Rightarrow> (string \<times> string list \<times> string list) list" where
  "walk_dir top_dir entries =
     (top_dir, map fst (filter (\<lambda>e. is_dir (snd e)) entries),
           map fst (filter (\<lambda>e. \<not> is_dir (snd e)) entries))
     # walk_subdirs top_dir entries"
| "walk_subdirs top_dir [] = []"
| "walk_subdirs top_dir ((subdir, File content) # rest) = walk_subdirs top_dir rest"
| "walk_subdirs top_dir ((subdir, Dir entries) # rest) =
     walk_dir (join top_dir subdir) entries @ walk_subdirs top_dir rest"

text \<open>
  \<^verbatim>\<open>os.walk(top)\<close> is called without \<^verbatim>\<open>onerror\<close>: when the top directory cannot be
  listed, the error is dropped and the walk yields nothing.
\<close>

definition os_walk :: "tree_fs \<Rightarrow> string \<Rightarrow> (string \<times> string list \<times> string list) list" where
  "os_walk fs top_dir =
     (case scandir fs top_dir of
        Inl err \<Rightarrow> []
      | Inr entries \<Rightarrow> walk_dir top_dir entries)"

text \<open>The \<^verbatim>\<open>for root, _, files in os.walk(directory)\<close> loop with its \<^verbatim>\<open>break\<close> (lines 128 to 133).\<close>

fun collect_loop ::
  "string \<Rightarrow> bool \<Rightarrow> (string \<times> string list \<times> string list) list \<Rightarrow> string list \<Rightarrow> string list" where
  "collect_loop extension recursive [] collected_files = collected_files"
| "collect_loop extension recursive ((root, subdirs, filenames) # rest) collected_files =
     (let collected_files' =
            collected_files @ map (join root) (filter (\<lambda>file. endswith file extension) filenames)
      in if \<not> recursive then collected_files'
         else collect_loop extension recursive rest collected_files')"

text \<open>\<^verbatim>\<open>collect_files\<close>: the list returned or the exception raised.\<close>

definition collect_files :: "tree_fs \<Rightarrow> string \<Rightarrow> string \<Rightarrow> bool \<Rightarrow> error + string list" where
  "collect_files fs directory extension recursive =
     Inr (collect_loop extension recursive (os_walk fs directory) [])"


text \<open>The two name lists of a triple of the walk.\<close>

definition filenames :: "(string \<times> node) list \<Rightarrow> string list" where
  "filenames entries = map fst (filter (\<lambda>e. \<not> is_dir (snd e)) entries)"


text \<open>For the statements about fragment names: the number that a string of decimal digits denotes.\<close>

definition digit_value :: "char \<Rightarrow> nat" where
  "digit_value c = of_char c - 48"

definition decimal_value :: "string \<Rightarrow> nat" where
  "decimal_value s = foldl (\<lambda>a c. 10 * a + digit_value c) 0 s"

text \<open>
  For the statements about the copy: the room left in a fragment that holds \<open>written\<close>
  bytes, counted in whole chunks of the buffer size, as the loop condition is tested
  between chunks only; the capacity of a fragment is the room in an empty one.
\<close>

definition chunk_room :: "int \<Rightarrow> int \<Rightarrow> nat" where
  "chunk_room buf_size written = nat (((MAX_SPLIT_SIZE - written + buf_size - 1) div buf_size) * buf_size)"

definition fragment_capacity :: "int \<Rightarrow> nat" where
  "fragment_capacity buf_size = chunk_room buf_size 0"

text \<open>The progress line printed after fragment \<open>split\<close>, given the running total.\<close>

definition progress_line :: "string \<Rightarrow> int \<Rightarrow> int \<Rightarrow> nat \<Rightarrow> int \<Rightarrow> report" where
  "progress_line filename filesize n split total_bytes_written =
     \<lparr>split_number = int split + 1, splits = n,
      progress = projr (truediv total_bytes_written filesize),
      bytes_total = total_bytes_written, bytes_filesize = filesize, name = filename,
      line_end = (if total_bytes_written < filesize then CHR 0x0D else CHR 0x0A)\<rparr>"

text \<open>
  For the statements about the round trip: the contents of the first \<open>n\<close> fragments of a
  split directory, in the order of their indices, and their concatenation.
\<close>

definition fragment_files :: "filesystem \<Rightarrow> string \<Rightarrow> nat \<Rightarrow> byte list list" where
  "fragment_files fs d n = map (\<lambda>k. the (files fs (join d (format_02 k)))) [0..<n]"

definition reassemble :: "filesystem \<Rightarrow> string \<Rightarrow> nat \<Rightarrow> byte list" where
  "reassemble fs d n = concat (fragment_files fs d n)"

text \<open>
  For the statements about the split directory: its own name, built from the stem and
  the extension of the last component of the input path.
\<close>

definition split_name :: "string \<Rightarrow> string" where
  "split_name p = fst (splitext (basename p)) @ ''.split.'' @ lstrip CHR ''.'' (snd (splitext (basename p)))"

section \<open>Example file systems\<close>

definition fs_empty_input :: filesystem where
  "fs_empty_input = \<lparr>dirs = {''data''}, files = [''data/empty.bin'' \<mapsto> []]\<rparr>"

text \<open>The directory of the spec's example: two files and a subdirectory with a third.\<close>

definition media_dir :: node where
  "media_dir =
     Dir [(''a.txt'', File [1]), (''b.mp4'', File [2]), (''sub'', Dir [(''c.mp4'', File [3]), (''D.MP4'', File [4])]),
          (''x.mp4.bak'', File [5]), (''clips.mp4'', Dir [])]"

definition fs_media :: tree_fs where
  "fs_media = [''media'' \<mapsto> media_dir]"

text \<open>
  A file of \<open>2 ^ 22 * MAX_SPLIT_SIZE + 1\<close> zero bytes, and one of \<open>MAX_SPLIT_SIZE + 1\<close>
  zero bytes.
\<close>

definition huge_size :: int where
  "huge_size = 2 ^ 22 * MAX_SPLIT_SIZE + 1"

definition fs_huge :: filesystem where
  "fs_huge = \<lparr>dirs = {}, files = [''huge.nsp'' \<mapsto> replicate (nat huge_size) 0]\<rparr>"

definition fs_over :: filesystem where
  "fs_over = \<lparr>dirs = {}, files = [''over.nsp'' \<mapsto> replicate (nat (MAX_SPLIT_SIZE + 1)) 0]\<rparr>"

definition fs_game :: filesystem where
  "fs_game = \<lparr>dirs = {''videos''}, files = [''videos/game.nsp'' \<mapsto> [1, 2, 3]]\<rparr>"

definition fs_game_split :: filesystem where
  "fs_game_split =
     \<lparr>dirs = {''videos/game.split.nsp'', ''videos''},
      files = [''videos/game.nsp'' \<mapsto> [1, 2, 3], ''videos/game.split.nsp/00'' \<mapsto> [1, 2, 3]]\<rparr>"

definition game_reports :: "report list" where
  "game_reports =
     [\<lparr>split_number = 1, splits = 1, progress = \<lparr>mant = 4503599627370496, expo = - 52\<rparr>,
       bytes_total = 3, bytes_filesize = 3, name = ''game.nsp'', line_end = CHR 0x0A\<rparr>]"

section \<open>Basic facts\<close>

lemma MAX_SPLIT_SIZE_value: "MAX_SPLIT_SIZE = 4294901760"
  by (simp add: MAX_SPLIT_SIZE_def FOUR_GB_def SIXTY_FOUR_KB_def ONE_KB_def)

lemma num_splits_zero: "num_splits 0 = Inr 0"
  by (simp add: num_splits_def truediv_def math_ceil_def MAX_SPLIT_SIZE_value)

lemma split_dir_of_empty_bin: "split_dir_of ''data/empty.bin'' = ''data/empty.split.bin''"
  by (simp add: split_dir_of_def dirname_def basename_def splitext_def join_def lstrip_def rstrip_def
      upto_last_def after_last_def)

section \<open>An empty input\<close>

text \<open>
  Claim C6. A call with \<open>filesize = 0\<close> on an existing input, where no file is in the way
  of the split directory, creates the split directory, writes no fragment (the files are
  unchanged), prints no progress line, so the quotient of the running total by
  \<open>filesize\<close> is never computed, and returns the path of the split directory.
\<close>

theorem split_file_zero_size:
  assumes "files fs filepath = Some content"
    and "split_dir_of filepath \<notin> dom (files fs)"
  shows "split_file fs filepath 0 buf_size =
           (fs\<lparr>dirs := insert (split_dir_of filepath) (dirs fs)\<rparr>, [], Inr (split_dir_of filepath))"
  using assms by (simp add: split_file_def num_splits_zero makedirs_def open_rb_def Let_def)

theorem split_file_zero_size_witness:
  "files fs_empty_input ''data/empty.bin'' = Some []
   \<and> split_dir_of ''data/empty.bin'' \<notin> dom (files fs_empty_input)
   \<and> split_file fs_empty_input ''data/empty.bin'' 0 32768 =
       (\<lparr>dirs = {''data/empty.split.bin'', ''data''}, files = [''data/empty.bin'' \<mapsto> []]\<rparr>, [],
        Inr ''data/empty.split.bin'')"
proof -
  have a: "files fs_empty_input ''data/empty.bin'' = Some []"
    by (simp add: fs_empty_input_def)
  have b: "split_dir_of ''data/empty.bin'' \<notin> dom (files fs_empty_input)"
    by (simp add: fs_empty_input_def split_dir_of_empty_bin)
  show ?thesis
    using a b split_file_zero_size [OF a b, of 32768]
    by (simp add: split_dir_of_empty_bin fs_empty_input_def)
qed

section \<open>Evaluation on small inputs\<close>

lemmas float_eval = num_splits_def truediv_def truediv_pos_def float_exponent_def
  round_half_even_def math_ceil_def MAX_SPLIT_SIZE_value bit_length.simps Let_def

lemmas path_eval = split_dir_of_def dirname_def basename_def splitext_def join_def lstrip_def
  rstrip_def upto_last_def after_last_def format_02_def decimal.simps digit_char_def

lemma num_splits_3: "num_splits 3 = Inr 1"
  by (simp add: float_eval)

lemma truediv_3_3: "truediv 3 3 = Inr \<lparr>mant = 4503599627370496, expo = - 52\<rparr>"
  by (simp add: float_eval)

lemma copy_chunks_game: "copy_chunks 2 [1, 2, 3] 0 [] 0 = (None, [], [1, 2, 3], 3)"
  by (simp add: copy_chunks.simps stream_read_def MAX_SPLIT_SIZE_value)

lemma split_dir_of_game: "split_dir_of ''videos/game.nsp'' = ''videos/game.split.nsp''"
  by (simp add: path_eval)

lemma split_file_game:
  "split_file fs_game ''videos/game.nsp'' 3 2 = (fs_game_split, game_reports, Inr ''videos/game.split.nsp'')"
  by (simp add: split_file_def num_splits_3 split_dir_of_game fs_game_def fs_game_split_def
      game_reports_def makedirs_def open_rb_def open_wb_def copy_chunks_game truediv_3_3
      basename_def after_last_def join_def format_02_def decimal.simps digit_char_def Let_def)

section \<open>Paths\<close>

lemma upto_after_last: "upto_last c p @ after_last c p = p"
proof -
  have "rev (takeWhile (\<lambda>x. x \<noteq> c) (rev p) @ dropWhile (\<lambda>x. x \<noteq> c) (rev p)) = p"
    by simp
  then show ?thesis
    unfolding upto_last_def after_last_def by (simp only: rev_append)
qed

lemma after_last_free: "c \<notin> set (after_last c p)"
  using set_takeWhileD [of c "\<lambda>x. x \<noteq> c" "rev p"] by (auto simp: after_last_def)

lemma upto_last_ends: "upto_last c p = [] \<or> last (upto_last c p) = c"
proof (cases "dropWhile (\<lambda>x. x \<noteq> c) (rev p)")
  case Nil
  then show ?thesis by (simp add: upto_last_def)
next
  case (Cons y ys)
  then have "y = c"
    using hd_dropWhile [of "\<lambda>x. x \<noteq> c" "rev p"] by simp
  with Cons show ?thesis by (simp add: upto_last_def)
qed

lemma after_last_append: "c \<notin> set x \<Longrightarrow> after_last c (a @ c # x) = x"
  by (simp add: after_last_def takeWhile_append1 [where x = c] takeWhile_append)

lemma upto_last_append: "c \<notin> set x \<Longrightarrow> upto_last c (a @ c # x) = a @ [c]"
  using upto_after_last [of c "a @ c # x"] after_last_append [of c x a] by simp

lemma after_last_none: "c \<notin> set x \<Longrightarrow> after_last c x = x"
  by (simp add: after_last_def) (metis (mono_tags, lifting) set_rev takeWhile_eq_all_conv rev_rev_ident)

lemma upto_last_none: "c \<notin> set x \<Longrightarrow> upto_last c x = []"
  using upto_after_last [of c x] after_last_none [of c x] by simp


lemma upto_last_nonempty: "c \<in> set p \<Longrightarrow> upto_last c p \<noteq> []"
  using upto_after_last [of c p] after_last_free [of c p] by auto

lemma upto_last_butlast: "c \<in> set p \<Longrightarrow> butlast (upto_last c p) @ [c] = upto_last c p"
  using upto_last_nonempty [of c p] upto_last_ends [of c p]
  by (metis append_butlast_last_id)

lemma basename_free: "CHR ''/'' \<notin> set (basename p)"
  by (simp add: basename_def after_last_free)

lemma head_basename: "upto_last CHR ''/'' p @ basename p = p"
  by (simp add: basename_def upto_after_last)

text \<open>The two shapes of a result of \<open>splitext\<close>.\<close>

lemma splitext_cases:
  obtains (none) "splitext p = (p, [])"
  | (ext) pre e where "splitext p = (upto_last CHR ''/'' p @ pre, CHR ''.'' # e)"
      "basename p = pre @ CHR ''.'' # e" "CHR ''.'' \<notin> set e"
proof (cases "CHR ''.'' \<in> set (basename p)
    \<and> (\<exists>c \<in> set (butlast (upto_last CHR ''.'' (basename p))). c \<noteq> CHR ''.'')")
  case False
  then have "splitext p = (p, [])"
    by (auto simp: splitext_def basename_def Let_def)
  then show ?thesis by (rule none)
next
  case True
  let ?b = "basename p"
  let ?pre = "butlast (upto_last CHR ''.'' ?b)"
  let ?e = "after_last CHR ''.'' ?b"
  from True have 1: "splitext p = (upto_last CHR ''/'' p @ ?pre, CHR ''.'' # ?e)"
    by (auto simp: splitext_def basename_def Let_def)
  from True have "?pre @ [CHR ''.''] = upto_last CHR ''.'' ?b"
    by (simp add: upto_last_butlast)
  then have 2: "?b = ?pre @ CHR ''.'' # ?e"
    using upto_after_last [of "CHR ''.''" ?b] by (metis append.assoc append_Cons append_Nil)
  have 3: "CHR ''.'' \<notin> set ?e"
    by (rule after_last_free)
  from 1 2 3 show ?thesis by (rule ext)
qed

lemma splitext_append: "fst (splitext p) @ snd (splitext p) = p"
proof (cases p rule: splitext_cases)
  case none
  then show ?thesis by simp
next
  case (ext pre e)
  then show ?thesis
    using head_basename [of p] by simp
qed

lemma splitext_basename:
  "splitext p = (upto_last CHR ''/'' p @ fst (splitext (basename p)), snd (splitext (basename p)))"
proof -
  have a: "basename (basename p) = basename p"
    using after_last_none [OF basename_free, of p] by (simp add: basename_def)
  have b: "upto_last CHR ''/'' (basename p) = []"
    by (simp add: upto_last_none basename_free)
  show ?thesis
    using head_basename [of p]
    by (simp add: splitext_def Let_def a b basename_def [symmetric])
qed




lemma split_dir_of_join:
  "split_dir_of p =
     join (dirname p) (fst (splitext (basename p)) @ ''.split.'' @ lstrip CHR ''.'' (snd (splitext (basename p))))"
  using splitext_basename [of p] by (simp add: split_dir_of_def Let_def)

lemma stem_ext_basename:
  "basename p = fst (splitext (basename p)) @ snd (splitext (basename p))"
  by (simp add: splitext_append)

lemma stem_free: "CHR ''/'' \<notin> set (fst (splitext (basename p)))"
  using basename_free [of p] stem_ext_basename [of p]
  by (metis Un_iff set_append)

lemma ext_free: "CHR ''/'' \<notin> set (lstrip CHR ''.'' (snd (splitext (basename p))))"
proof -
  have "set (lstrip CHR ''.'' (snd (splitext (basename p)))) \<subseteq> set (snd (splitext (basename p)))"
    by (auto simp: lstrip_def dest: set_dropWhileD)
  moreover have "CHR ''/'' \<notin> set (snd (splitext (basename p)))"
    using basename_free [of p] stem_ext_basename [of p] by (metis Un_iff set_append)
  ultimately show ?thesis by blast
qed



lemma join_length: "x \<noteq> [] \<Longrightarrow> hd x \<noteq> CHR ''/'' \<Longrightarrow> length a < length (join a x)"
  by (auto simp: join_def)

lemma join_dirname:
  assumes "a \<noteq> []" "last a \<noteq> CHR ''/''" "CHR ''/'' \<notin> set x"
  shows "dirname (join a x) = a"
proof -
  from assms have h: "x = [] \<or> hd x \<noteq> CHR ''/''" by (cases x) auto
  with assms have j: "join a x = a @ CHR ''/'' # x" by (auto simp: join_def)
  have u: "upto_last CHR ''/'' (join a x) = a @ [CHR ''/'']"
    using assms(3) by (simp add: j upto_last_append)
  have n: "a @ [CHR ''/''] \<noteq> replicate (length (a @ [CHR ''/''])) CHR ''/''"
  proof
    assume "a @ [CHR ''/''] = replicate (length (a @ [CHR ''/''])) CHR ''/''"
    then have "set a \<subseteq> {CHR ''/''}"
      by (metis Un_upper1 set_append set_replicate_conv_if subset_trans empty_subsetI)
    with assms(1,2) show False
      by (metis last_in_set singletonD subsetD)
  qed
  have r: "rstrip CHR ''/'' (a @ [CHR ''/'']) = a"
    using assms(1,2) by (cases "rev a") (auto simp: rstrip_def)
  show ?thesis
    using n r by (simp add: dirname_def u Let_def)
qed

lemma join_last:
  assumes "x \<noteq> []" "CHR ''/'' \<notin> set x"
  shows "join a x \<noteq> [] \<and> last (join a x) \<noteq> CHR ''/''"
proof -
  from assms have "hd x \<noteq> CHR ''/''" by (cases x) auto
  with assms(1) have "join a x \<noteq> []" "last (join a x) = last x"
    by (auto simp: join_def)
  moreover have "last x \<in> set x"
    using assms(1) by (rule last_in_set)
  ultimately show ?thesis
    using assms(2) by metis
qed


lemma split_name_free: "CHR ''/'' \<notin> set (split_name p)"
  using stem_free [of p] ext_free [of p] by (simp add: split_name_def)




lemma split_dir_of_last: "split_dir_of p \<noteq> [] \<and> last (split_dir_of p) \<noteq> CHR ''/''"
proof -
  have "split_name p \<noteq> []" by (simp add: split_name_def)
  then show ?thesis
    using join_last [OF _ split_name_free, of p "dirname p"]
    by (simp add: split_dir_of_join split_name_def)
qed

lemma split_dir_of_longer: "length (dirname p) < length (split_dir_of p)"
proof -
  have "split_name p \<noteq> []" by (simp add: split_name_def)
  moreover have "hd (split_name p) \<noteq> CHR ''/''"
    using split_name_free [of p] calculation by (cases "split_name p") auto
  ultimately show ?thesis
    using join_length [of "split_name p" "dirname p"]
    by (simp add: split_dir_of_join split_name_def)
qed

text \<open>Fragment names.\<close>

lemma digit_char_digit: "d < 10 \<Longrightarrow> digit_char d \<in> set ''0123456789''"
  unfolding digit_char_def by (rule nth_mem) simp

lemma decimal_digits: "set (decimal n) \<subseteq> set ''0123456789''"
proof (induction n rule: decimal.induct)
  case (1 n)
  show ?case
  proof (cases "n < 10")
    case True
    then show ?thesis
      using digit_char_digit [of n] by (subst decimal.simps) simp
  next
    case False
    have "n mod 10 < 10" by simp
    then have "digit_char (n mod 10) \<in> set ''0123456789''" by (rule digit_char_digit)
    with False 1 show ?thesis
      by (subst decimal.simps) simp
  qed
qed

lemma decimal_nonempty: "decimal n \<noteq> []"
  by (subst decimal.simps) simp

lemma format_02_digits: "set (format_02 n) \<subseteq> set ''0123456789''"
  using decimal_digits [of n] by (auto simp: format_02_def Let_def)

lemma format_02_nonempty: "format_02 n \<noteq> []"
  by (simp add: format_02_def Let_def decimal_nonempty)

lemma format_02_free: "CHR ''/'' \<notin> set (format_02 n)"
  using format_02_digits [of n] by auto

section \<open>What a call may change\<close>

lemma fragment_path_differs: "join (split_dir_of p) (format_02 i) \<noteq> p"
proof
  assume eq: "join (split_dir_of p) (format_02 i) = p"
  have "dirname (join (split_dir_of p) (format_02 i)) = split_dir_of p"
    using split_dir_of_last [of p] format_02_free [of i] by (simp add: join_dirname)
  with eq have "dirname p = split_dir_of p" by simp
  then show False
    using split_dir_of_longer [of p] by simp
qed

lemma fragment_path_not_dir: "join (split_dir_of p) (format_02 i) \<noteq> split_dir_of p"
proof -
  have "hd (format_02 i) \<noteq> CHR ''/''"
    using format_02_free [of i] format_02_nonempty [of i] by (cases "format_02 i") auto
  then show ?thesis
    using join_length [OF format_02_nonempty, of i "split_dir_of p"] by auto
qed

lemma split_loop_frame:
  "split_loop d fname sz buf n idxs fs ins tot out = (err, fs', out') \<Longrightarrow>
     dirs fs' = dirs fs \<and> dom (files fs) \<subseteq> dom (files fs')
     \<and> (\<forall>p. p \<notin> (\<lambda>i. join d (format_02 i)) ` set idxs \<longrightarrow> files fs' p = files fs p)"
proof (induction idxs arbitrary: fs ins tot out)
  case Nil
  then show ?case by simp
next
  case (Cons i idxs)
  let ?path = "join d (format_02 i)"
  show ?case
  proof (cases "open_wb fs ?path")
    case (Inl e)
    with Cons.prems show ?thesis by (simp add: Let_def)
  next
    case (Inr fs1)
    then have fs1: "fs1 = fs\<lparr>files := (files fs)(?path \<mapsto> [])\<rparr>"
      by (auto simp: open_wb_def split: if_splits)
    obtain failed ins' outfile tot' where cc: "copy_chunks buf ins 0 [] tot = (failed, ins', outfile, tot')"
      by (cases "copy_chunks buf ins 0 [] tot") auto
    let ?fs2 = "fs1\<lparr>files := (files fs1)(?path \<mapsto> outfile)\<rparr>"
    have fs2: "dirs ?fs2 = dirs fs" "dom (files fs) \<subseteq> dom (files ?fs2)"
      "\<And>p. p \<noteq> ?path \<Longrightarrow> files ?fs2 p = files fs p"
      by (auto simp: fs1)
    show ?thesis
    proof (cases failed)
      case (Some e)
      with Cons.prems Inr cc have "fs' = ?fs2" by (simp add: Let_def)
      with fs2 show ?thesis by auto
    next
      case None
      show ?thesis
      proof (cases "truediv tot' sz")
        case (Inl e)
        with Cons.prems Inr cc None have "fs' = ?fs2" by (simp add: Let_def)
        with fs2 show ?thesis by auto
      next
        case (Inr q)
        with Cons.prems \<open>open_wb fs ?path = Inr fs1\<close> cc None
        obtain out2 where "split_loop d fname sz buf n idxs ?fs2 ins' tot' out2 = (err, fs', out')"
          by (simp add: Let_def)
        from Cons.IH [OF this]
        have ih: "dirs fs' = dirs ?fs2" "dom (files ?fs2) \<subseteq> dom (files fs')"
          "\<And>p. p \<notin> (\<lambda>i. join d (format_02 i)) ` set idxs \<Longrightarrow> files fs' p = files ?fs2 p"
          by blast+
        have "dirs fs' = dirs fs"
          using ih(1) fs2(1) by simp
        moreover have "dom (files fs) \<subseteq> dom (files fs')"
          using fs2(2) ih(2) by (rule subset_trans)
        moreover have "files fs' p = files fs p"
          if "p \<notin> (\<lambda>i. join d (format_02 i)) ` set (i # idxs)" for p
        proof -
          from that have "p \<noteq> ?path" "p \<notin> (\<lambda>i. join d (format_02 i)) ` set idxs"
            by auto
          then show ?thesis
            using ih(3) [of p] fs2(3) [of p] by simp
        qed
        ultimately show ?thesis by blast
      qed
    qed
  qed
qed

lemma split_loop_created:
  "split_loop d fname sz buf n idxs fs ins tot out = (None, fs', out') \<Longrightarrow>
     \<forall>i \<in> set idxs. join d (format_02 i) \<in> dom (files fs')"
proof (induction idxs arbitrary: fs ins tot out)
  case Nil
  then show ?case by simp
next
  case (Cons i idxs)
  let ?path = "join d (format_02 i)"
  from Cons.prems obtain fs1 where o: "open_wb fs ?path = Inr fs1"
    by (cases "open_wb fs ?path") (auto simp: Let_def)
  obtain failed ins' outfile tot' where cc: "copy_chunks buf ins 0 [] tot = (failed, ins', outfile, tot')"
    by (cases "copy_chunks buf ins 0 [] tot") auto
  let ?fs2 = "fs1\<lparr>files := (files fs1)(?path \<mapsto> outfile)\<rparr>"
  from Cons.prems o cc have f: "failed = None"
    by (cases failed) (auto simp: Let_def)
  from Cons.prems o cc f obtain q where q: "truediv tot' sz = Inr q"
    by (cases "truediv tot' sz") (auto simp: Let_def)
  from Cons.prems o cc f q
  obtain out2 where rest: "split_loop d fname sz buf n idxs ?fs2 ins' tot' out2 = (None, fs', out')"
    by (simp add: Let_def)
  have "?path \<in> dom (files ?fs2)" by simp
  with split_loop_frame [OF rest] have "?path \<in> dom (files fs')" by blast
  with Cons.IH [OF rest] show ?case by simp
qed

lemma split_file_result:
  assumes "split_file fs filepath filesize buf_size = (fs', out, Inr d)"
  shows "d = split_dir_of filepath"
    and "\<exists>content. files fs filepath = Some content"
    and "dirs fs' = insert d (dirs fs)"
    and "\<exists>n. num_splits filesize = Inr n
           \<and> (\<forall>i < nat n. join d (format_02 i) \<in> dom (files fs'))
           \<and> (\<forall>p. files fs' p \<noteq> files fs p \<longrightarrow> (\<exists>i < nat n. p = join d (format_02 i)))"
proof -
  from assms obtain n where n: "num_splits filesize = Inr n"
    by (cases "num_splits filesize") (auto simp: split_file_def)
  let ?d = "split_dir_of filepath"
  from assms n obtain fs1 where m: "makedirs fs ?d = Inr fs1"
    by (cases "makedirs fs ?d") (auto simp: split_file_def Let_def)
  then have fs1: "fs1 = fs\<lparr>dirs := insert ?d (dirs fs)\<rparr>"
    by (auto simp: makedirs_def split: if_splits)
  from assms n m obtain ins where i: "open_rb fs1 filepath = Inr ins"
    by (cases "open_rb fs1 filepath") (auto simp: split_file_def Let_def)
  then show "\<exists>content. files fs filepath = Some content"
    by (auto simp: open_rb_def fs1 split: option.splits if_splits)
  obtain err fs2 out2 where l:
    "split_loop ?d (basename filepath) filesize buf_size n [0..<nat n] fs1 ins 0 [] = (err, fs2, out2)"
    by (metis prod_cases3)
  from assms n m i l have r: "err = None" "fs2 = fs'" "d = ?d"
    by (cases err; simp add: split_file_def Let_def)+
  then show "d = split_dir_of filepath" by simp
  from split_loop_frame [OF l] r show "dirs fs' = insert d (dirs fs)"
    by (simp add: fs1)
  from l r have l': "split_loop d (basename filepath) filesize buf_size n [0..<nat n] fs1 ins 0 [] = (None, fs', out2)"
    by simp
  have a: "\<forall>i < nat n. join d (format_02 i) \<in> dom (files fs')"
    using split_loop_created [OF l'] by simp
  have b: "\<exists>i < nat n. p = join d (format_02 i)" if "files fs' p \<noteq> files fs p" for p
  proof (rule ccontr)
    assume "\<not> (\<exists>i < nat n. p = join d (format_02 i))"
    then have "p \<notin> (\<lambda>i. join d (format_02 i)) ` set [0..<nat n]" by auto
    with split_loop_frame [OF l'] have "files fs' p = files fs1 p" by blast
    with that show False by (simp add: fs1)
  qed
  from n a b
  show "\<exists>n. num_splits filesize = Inr n
           \<and> (\<forall>i < nat n. join d (format_02 i) \<in> dom (files fs'))
           \<and> (\<forall>p. files fs' p \<noteq> files fs p \<longrightarrow> (\<exists>i < nat n. p = join d (format_02 i)))"
    by blast
qed

text \<open>
  Claim C9. A call that returns leaves the input file in place with the bytes it had:
  nothing removes it, and no fragment is written to its path.
\<close>

theorem split_file_keeps_source:
  assumes "split_file fs filepath filesize buf_size = (fs', out, Inr d)"
  shows "\<exists>content. files fs filepath = Some content \<and> files fs' filepath = Some content"
proof -
  from split_file_result(2) [OF assms] obtain content where c: "files fs filepath = Some content" ..
  have "files fs' filepath = files fs filepath"
  proof (rule ccontr)
    assume "files fs' filepath \<noteq> files fs filepath"
    with split_file_result(4) [OF assms] obtain i where "filepath = join d (format_02 i)" by blast
    with split_file_result(1) [OF assms] show False
      using fragment_path_differs [of filepath i] by simp
  qed
  with c show ?thesis by simp
qed

theorem split_file_keeps_source_witness:
  "split_file fs_game ''videos/game.nsp'' 3 2 = (fs_game_split, game_reports, Inr ''videos/game.split.nsp'')
   \<and> files fs_game ''videos/game.nsp'' = Some [1, 2, 3]
   \<and> files fs_game_split ''videos/game.nsp'' = Some [1, 2, 3]"
  using split_file_keeps_source [OF split_file_game] split_file_game
  by (simp add: fs_game_def fs_game_split_def)



section \<open>The file enumerator: what it returns\<close>











text \<open>
  Claim C4, as the code has it. Nothing in \<open>collect_files\<close> raises: the walk drops the
  error of listing a missing directory and yields nothing, so the result is the empty
  list, for every extension and both values of \<open>recursive\<close>.
\<close>

theorem collect_files_missing_directory:
  assumes "fs directory = None"
  shows "collect_files fs directory extension recursive = Inr []"
  using assms by (simp add: collect_files_def os_walk_def scandir_def)

theorem collect_files_missing_directory_witness:
  "fs_media ''gone'' = None \<and> collect_files fs_media ''gone'' ''.nsp'' True = Inr []"
proof -
  have h: "fs_media ''gone'' = None"
    by (simp add: fs_media_def)
  from h collect_files_missing_directory [of fs_media "''gone''" "''.nsp''" True, OF h] show ?thesis
    by simp
qed

text \<open>The claim as stated fails: a missing directory does not give \<open>FileNotFoundError\<close>.\<close>

theorem collect_files_not_found_counterexample:
  "\<not> (fs_media ''missing'' = None \<longrightarrow>
        collect_files fs_media ''missing'' ''.mp4'' False = Inl FileNotFoundError)"
  by (simp add: fs_media_def collect_files_def)

section \<open>The layout of the output\<close>

lemma digit_value_digit_char: "d < 10 \<Longrightarrow> digit_value (digit_char d) = d"
proof -
  assume "d < 10"
  then consider "d = 0" | "d = 1" | "d = 2" | "d = 3" | "d = 4" | "d = 5" | "d = 6" | "d = 7"
    | "d = 8" | "d = 9" by atomize_elim arith
  then show ?thesis
    by cases (simp_all add: digit_value_def digit_char_def)
qed

lemma decimal_value_snoc: "decimal_value (s @ [c]) = 10 * decimal_value s + digit_value c"
  by (simp add: decimal_value_def)

lemma decimal_value_decimal: "decimal_value (decimal n) = n"
proof (induction n rule: decimal.induct)
  case (1 n)
  show ?case
  proof (cases "n < 10")
    case True
    then show ?thesis
      by (subst decimal.simps) (simp add: decimal_value_def digit_value_digit_char)
  next
    case False
    with 1 have "decimal_value (decimal (n div 10)) = n div 10" by simp
    with False show ?thesis
      by (subst decimal.simps) (simp add: decimal_value_snoc digit_value_digit_char)
  qed
qed

lemma decimal_value_zeros: "decimal_value (replicate k CHR ''0'' @ s) = decimal_value s"
proof -
  have z: "digit_value CHR ''0'' = 0"
    by (simp add: digit_value_def)
  have "foldl (\<lambda>a c. 10 * a + digit_value c) 0 (replicate k CHR ''0'') = 0"
    by (induction k) (simp_all add: z)
  then show ?thesis by (simp add: decimal_value_def)
qed


lemma format_02_value: "decimal_value (format_02 n) = n"
  by (simp add: format_02_def Let_def decimal_value_zeros decimal_value_decimal)




lemma format_02_inj: "format_02 i = format_02 j \<Longrightarrow> i = j"
  by (metis format_02_value)

lemma fragment_path: "join (split_dir_of p) (format_02 i) = split_dir_of p @ ''/'' @ format_02 i"
proof -
  have "hd (format_02 i) \<noteq> CHR ''/''"
    using format_02_free [of i] format_02_nonempty [of i] by (cases "format_02 i") auto
  then show ?thesis
    using split_dir_of_last [of p] format_02_nonempty [of i] by (simp add: join_def)
qed





lemma split_dir_of_no_extension: "split_dir_of ''notes'' = ''notes.split.''"
  by (simp add: path_eval)

lemma format_02_examples:
  "format_02 0 = ''00''" "format_02 7 = ''07''" "format_02 42 = ''42''" "format_02 100 = ''100''"
  by (simp_all add: format_02_def decimal.simps digit_char_def Let_def)



section \<open>The fragment count\<close>

lemma bit_length_pos: "0 < n \<Longrightarrow> 0 < bit_length n"
  by (subst bit_length.simps) simp

lemma bit_length_lower: "0 < n \<Longrightarrow> 2 ^ (bit_length n - 1) \<le> n"
proof (induction n rule: bit_length.induct)
  case (1 n)
  show ?case
  proof (cases "n div 2 = 0")
    case True
    with 1(2) have "bit_length n = 1"
      by (subst bit_length.simps, subst bit_length.simps) simp
    with 1(2) show ?thesis by simp
  next
    case False
    with 1 have ih: "2 ^ (bit_length (n div 2) - 1) \<le> n div 2" by simp
    have "bit_length n = Suc (bit_length (n div 2))"
      using 1(2) by (subst bit_length.simps) simp
    moreover have "0 < bit_length (n div 2)"
      using False by (simp add: bit_length_pos)
    ultimately have "(2::nat) ^ (bit_length n - 1) = 2 * 2 ^ (bit_length (n div 2) - 1)"
      by (cases "bit_length (n div 2)") simp_all
    with ih show ?thesis by linarith
  qed
qed

lemma bit_length_upper: "n < 2 ^ bit_length n"
proof (induction n rule: bit_length.induct)
  case (1 n)
  show ?case
  proof (cases "n = 0")
    case True
    then show ?thesis by simp
  next
    case False
    with 1 have "n div 2 < 2 ^ bit_length (n div 2)" by simp
    then have "n < 2 * 2 ^ bit_length (n div 2)" by linarith
    with False show ?thesis by (subst bit_length.simps) simp
  qed
qed

lemma bit_length_mono: "m \<le> n \<Longrightarrow> bit_length m \<le> bit_length n"
proof (induction n arbitrary: m rule: bit_length.induct)
  case (1 n)
  show ?case
  proof (cases "m = 0")
    case True
    then show ?thesis by (subst bit_length.simps) simp
  next
    case False
    with 1(2) have n: "n \<noteq> 0" by simp
    from 1(2) have "m div 2 \<le> n div 2" by (rule div_le_mono)
    with 1(1) n have "bit_length (m div 2) \<le> bit_length (n div 2)" by simp
    with False n show ?thesis
      by (subst bit_length.simps, subst (2) bit_length.simps) simp
  qed
qed

lemma bit_length_MAX: "bit_length (nat MAX_SPLIT_SIZE) = 32"
  by (simp add: MAX_SPLIT_SIZE_value bit_length.simps)

lemma round_half_even_cases:
  assumes "0 < d"
  shows "n div d \<le> round_half_even n d" "round_half_even n d \<le> n div d + 1"
    "n mod d = 0 \<Longrightarrow> round_half_even n d = n div d"
    "d < 2 * (n mod d) \<Longrightarrow> round_half_even n d = n div d + 1"
  using assms by (auto simp: round_half_even_def Let_def)

lemma ceiling_between:
  fixes m k N :: int
  assumes "0 < N" "(k - 1) * N < m" "m \<le> k * N"
  shows "- ((- m) div N) = k"
proof -
  have "(- m) div N = - k"
  proof (rule int_div_pos_eq [where r = "k * N - m"])
    show "- m = N * (- k) + (k * N - m)" by (simp add: algebra_simps)
    show "0 \<le> k * N - m" using assms by simp
    show "k * N - m < N" using assms by (simp add: algebra_simps)
  qed
  then show ?thesis by simp
qed

text \<open>Rounding the scaled quotient keeps the ceiling, as long as the scale is fine enough.\<close>

lemma ceil_round_scaled:
  fixes x b N :: int
  assumes b: "0 < b" and x: "0 < x" and N: "0 < N" "b < 2 * N"
  shows "- ((- round_half_even (x * N) b) div N) = (x + b - 1) div b"
proof -
  define k where "k = (x + b - 1) div b"
  define m where "m = round_half_even (x * N) b"
  define r where "r = (x + b - 1) mod b"
  have r: "0 \<le> r" "r < b"
    using b by (simp_all add: r_def)
  have kr: "k * b + r = x + b - 1"
    unfolding k_def r_def by simp
  have k1: "(k - 1) * b < x"
    using kr r by (simp add: algebra_simps)
  have k2: "x \<le> k * b"
    using kr r by (simp add: algebra_simps)
  define q where "q = (x * N) div b"
  define t where "t = (x * N) mod b"
  have t: "0 \<le> t" "t < b"
    using b by (simp_all add: t_def)
  have qt: "q * b + t = x * N"
    unfolding q_def t_def by simp
  have m: "q \<le> m" "m \<le> q + 1" "t = 0 \<Longrightarrow> m = q" "b < 2 * t \<Longrightarrow> m = q + 1"
    unfolding m_def q_def t_def using round_half_even_cases [OF b, of "x * N"] by simp_all
  have up: "m \<le> k * N"
  proof (cases "q < k * N")
    case True
    with m(2) show ?thesis by simp
  next
    case False
    have "x * N \<le> k * b * N"
      using k2 N(1) by simp
    with qt have "q * b + t \<le> k * N * b" by (simp add: algebra_simps)
    moreover have "k * N * b \<le> q * b"
      using False b by simp
    ultimately have "t = 0" "q * b = k * N * b" using t by linarith+
    then have "m = q" "q = k * N" using m(3) b by simp_all
    then show ?thesis by simp
  qed
  have lo: "(k - 1) * N < m"
  proof (cases "(k - 1) * N < q")
    case True
    with m(1) show ?thesis by simp
  next
    case False
    have "((k - 1) * b + 1) * N \<le> x * N"
      using k1 N(1) by simp
    then have ge: "(k - 1) * N * b + N \<le> q * b + t"
      using qt by (simp add: algebra_simps)
    have "q * b \<le> (k - 1) * N * b"
      using False b by simp
    with ge have "N \<le> t" by simp
    with N(2) have "b < 2 * t" by simp
    then have mq: "m = q + 1" by (rule m(4))
    have "(k - 1) * N \<le> q"
    proof (rule ccontr)
      assume "\<not> (k - 1) * N \<le> q"
      then have "q + 1 \<le> (k - 1) * N" by simp
      then have "(q + 1) * b \<le> (k - 1) * N * b"
        using b by simp
      with ge t N(1) show False by (simp add: algebra_simps)
    qed
    with mq show ?thesis by simp
  qed
  from ceiling_between [OF N(1) lo up] show ?thesis
    by (simp add: m_def k_def)
qed


lemma float_exponent_le:
  assumes "0 < x" "0 < y" "0 \<le> float_exponent x y"
  shows "y * 2 ^ nat (float_exponent x y) \<le> x"
proof -
  define d where "d = int (bit_length (nat x)) - int (bit_length (nat y))"
  have unfold: "float_exponent x y =
      (if (if 0 \<le> d then y * 2 ^ nat d \<le> x else y \<le> x * 2 ^ nat (- d)) then d else d - 1)"
    unfolding float_exponent_def d_def Let_def ..
  show ?thesis
  proof (cases "if 0 \<le> d then y * 2 ^ nat d \<le> x else y \<le> x * 2 ^ nat (- d)")
    case True
    then have e: "float_exponent x y = d"
      unfolding unfold by (rule if_P)
    with assms(3) True show ?thesis by simp
  next
    case False
    then have e: "float_exponent x y = d - 1"
      unfolding unfold by (rule if_not_P)
    with assms(3) have d: "1 \<le> d" by simp
    have "0 < nat x"
      using assms(1) by simp
    then have lx: "2 ^ (bit_length (nat x) - 1) \<le> nat x"
      by (rule bit_length_lower)
    have ly: "nat y < 2 ^ bit_length (nat y)"
      by (rule bit_length_upper)
    from d have bl: "bit_length (nat x) - 1 = bit_length (nat y) + nat (d - 1)"
      unfolding d_def by linarith
    have "nat y * 2 ^ nat (d - 1) < 2 ^ bit_length (nat y) * 2 ^ nat (d - 1)"
      using ly by simp
    also have "\<dots> = 2 ^ (bit_length (nat x) - 1)"
      by (simp only: bl power_add)
    also have "\<dots> \<le> nat x" by (rule lx)
    finally have "int (nat y * 2 ^ nat (d - 1)) < int (nat x)" by linarith
    then have "y * 2 ^ nat (d - 1) < x"
      using assms(1,2) by simp
    then show ?thesis by (simp add: e)
  qed
qed

lemma float_exponent_ge:
  assumes "0 < x"
  shows "- int (bit_length (nat y)) \<le> float_exponent x y"
proof -
  have "0 < bit_length (nat x)"
    using assms by (simp add: bit_length_pos)
  then show ?thesis
    by (simp add: float_exponent_def Let_def)
qed

lemma float_exponent_upper:
  "float_exponent x y \<le> int (bit_length (nat x)) - int (bit_length (nat y))"
  by (simp add: float_exponent_def Let_def)


lemma truediv_pos_small:
  assumes "float_exponent x y < 52"
  shows "truediv_pos x y =
      Inr \<lparr>mant = round_half_even (x * 2 ^ nat (- max (float_exponent x y - 52) (- 1074))) y,
           expo = max (float_exponent x y - 52) (- 1074)\<rparr>"
proof -
  have "max (float_exponent x y - 52) (- 1074) < 0"
    using assms by simp
  then show ?thesis
    unfolding truediv_pos_def Let_def by simp
qed

lemma truediv_no_overflow:
  assumes "0 \<le> a" "a \<le> b" "0 < b"
  shows "\<exists>f. truediv a b = Inr f"
proof (cases "a = 0")
  case True
  with assms show ?thesis by (simp add: truediv_def)
next
  case False
  have "bit_length (nat a) \<le> bit_length (nat b)"
    using assms by (intro bit_length_mono) simp
  then have "float_exponent a b \<le> 0"
    using float_exponent_upper [of a b] by simp
  then have "float_exponent a b < 52" by simp
  from truediv_pos_small [OF this] False assms show ?thesis
    by (simp add: truediv_def)
qed

text \<open>
  Up to \<open>2 ^ 22 * MAX_SPLIT_SIZE\<close> bytes the float quotient is fine enough for its ceiling
  to be the exact one.
\<close>

lemma num_splits_exact_pos:
  assumes "0 < a" "a \<le> 2 ^ 22 * MAX_SPLIT_SIZE"
  shows "num_splits a = Inr ((a + MAX_SPLIT_SIZE - 1) div MAX_SPLIT_SIZE)"
proof -
  define e where "e = float_exponent a MAX_SPLIT_SIZE"
  have b: "0 < MAX_SPLIT_SIZE" by (simp add: MAX_SPLIT_SIZE_value)
  have lo: "- 32 \<le> e"
    using float_exponent_ge [OF assms(1), of MAX_SPLIT_SIZE] by (simp add: e_def bit_length_MAX)
  have hi: "e \<le> 22"
  proof (rule ccontr)
    assume "\<not> e \<le> 22"
    then have e23: "23 \<le> e" by simp
    then have "MAX_SPLIT_SIZE * 2 ^ nat e \<le> a"
      using float_exponent_le [OF assms(1) b] by (simp add: e_def)
    moreover have "(2::int) ^ 23 \<le> 2 ^ nat e"
      using e23 by (intro power_increasing) simp_all
    then have "MAX_SPLIT_SIZE * 2 ^ 23 \<le> MAX_SPLIT_SIZE * 2 ^ nat e"
      using b by (intro mult_left_mono) simp_all
    ultimately show False
      using assms(2) by (simp add: MAX_SPLIT_SIZE_value)
  qed
  have p: "max (e - 52) (- 1074) = e - 52"
    using lo by simp
  have td: "truediv a MAX_SPLIT_SIZE =
      Inr \<lparr>mant = round_half_even (a * 2 ^ nat (52 - e)) MAX_SPLIT_SIZE, expo = e - 52\<rparr>"
    using truediv_pos_small [of a MAX_SPLIT_SIZE] hi assms(1) b
    by (simp add: truediv_def e_def [symmetric] p)
  have ns: "num_splits a = Inr (- ((- round_half_even (a * 2 ^ nat (52 - e)) MAX_SPLIT_SIZE) div 2 ^ nat (52 - e)))"
    using hi by (simp add: num_splits_def td math_ceil_def)
  show ?thesis
  proof (cases "e \<le> 21")
    case True
    then have "(2::int) ^ 31 \<le> 2 ^ nat (52 - e)"
      by (intro power_increasing) simp_all
    then have "MAX_SPLIT_SIZE < 2 * 2 ^ nat (52 - e)"
      by (simp add: MAX_SPLIT_SIZE_value)
    from ceil_round_scaled [OF b assms(1) _ this] show ?thesis
      by (simp add: ns)
  next
    case False
    with hi have e: "e = 22" by simp
    then have "MAX_SPLIT_SIZE * 2 ^ 22 \<le> a"
      using float_exponent_le [OF assms(1) b] by (simp add: e_def)
    with assms(2) have a: "a = 18014123631575040"
      by (simp add: MAX_SPLIT_SIZE_value)
    show ?thesis
      unfolding ns by (simp add: e a MAX_SPLIT_SIZE_value round_half_even_def)
  qed
qed

lemma num_splits_exact:
  assumes "0 \<le> a" "a \<le> 2 ^ 22 * MAX_SPLIT_SIZE"
  shows "num_splits a = Inr ((a + MAX_SPLIT_SIZE - 1) div MAX_SPLIT_SIZE)"
proof (cases "a = 0")
  case True
  then show ?thesis by (simp add: num_splits_zero MAX_SPLIT_SIZE_value)
next
  case False
  with assms show ?thesis by (intro num_splits_exact_pos) simp_all
qed

text \<open>One byte more, and the quotient rounds down to an integer.\<close>

lemma num_splits_large: "num_splits (2 ^ 22 * MAX_SPLIT_SIZE + 1) = Inr (2 ^ 22)"
  by (simp add: float_eval)

section \<open>What the copy loops compute\<close>

lemma chunk_room_step:
  assumes "0 < buf" "w < MAX_SPLIT_SIZE"
  shows "chunk_room buf w = nat buf + chunk_room buf (w + buf)"
proof -
  define a where "a = MAX_SPLIT_SIZE - w - 1"
  have a: "0 \<le> a" using assms(2) by (simp add: a_def)
  have 1: "MAX_SPLIT_SIZE - w + buf - 1 = a + buf" by (simp add: a_def)
  have 2: "MAX_SPLIT_SIZE - (w + buf) + buf - 1 = a" by (simp add: a_def)
  have q: "0 \<le> a div buf"
    using a assms(1) by (simp add: pos_imp_zdiv_nonneg_iff)
  have "(a + buf) div buf = a div buf + 1"
    using assms(1) by (simp add: div_add_self2)
  then have "chunk_room buf w = nat ((a div buf + 1) * buf)"
    by (simp only: chunk_room_def 1)
  also have "\<dots> = nat (buf + (a div buf) * buf)"
    by (simp add: algebra_simps)
  also have "\<dots> = nat buf + nat ((a div buf) * buf)"
    using q assms(1) by (intro nat_add_distrib) simp_all
  finally show ?thesis
    by (simp only: chunk_room_def 2)
qed

lemma chunk_room_done:
  assumes "0 < buf" "MAX_SPLIT_SIZE \<le> w"
  shows "chunk_room buf w = 0"
proof -
  have "(MAX_SPLIT_SIZE - w + buf - 1) div buf \<le> (buf - 1) div buf"
    using assms by (intro zdiv_mono1) simp_all
  also have "(buf - 1) div buf = 0"
    using assms(1) by (intro div_pos_pos_trivial) simp_all
  finally have "((MAX_SPLIT_SIZE - w + buf - 1) div buf) * buf \<le> 0"
    using assms(1) by (simp add: mult_le_0_iff)
  then show ?thesis by (simp add: chunk_room_def)
qed

lemma chunk_room_least:
  assumes "0 < buf" "w < MAX_SPLIT_SIZE"
  shows "nat buf \<le> chunk_room buf w"
  using chunk_room_step [OF assms] by simp

text \<open>
  The inner loop with a positive buffer size: it never fails, and it moves the first
  \<open>k\<close> bytes of the stream to the fragment, where \<open>k\<close> is the room left in the
  fragment, in whole chunks, or the whole stream when that is shorter.
\<close>

lemma copy_chunks_pos:
  assumes "0 < buf"
  shows "copy_chunks buf ins w out tot =
           (None, drop (chunk_room buf w) ins, out @ take (chunk_room buf w) ins,
            tot + int (min (length ins) (chunk_room buf w)))"
  using assms
proof (induction buf ins w out tot rule: copy_chunks.induct)
  case (1 buf ins w out tot)
  show ?case
  proof (cases "w < MAX_SPLIT_SIZE")
    case False
    then have "chunk_room buf w = 0"
      using "1.prems" by (simp add: chunk_room_done)
    with False show ?thesis
      by (subst copy_chunks.simps) simp
  next
    case True
    have rd: "stream_read buf ins = Inr (take (nat buf) ins, drop (nat buf) ins)"
      using "1.prems" by (simp add: stream_read_def)
    have room: "chunk_room buf w = nat buf + chunk_room buf (w + buf)"
      using "1.prems" True by (rule chunk_room_step)
    show ?thesis
    proof (cases "ins = []")
      case e: True
      with True rd show ?thesis
        by (subst copy_chunks.simps) simp
    next
      case ne: False
      then have chunk: "take (nat buf) ins \<noteq> []"
        using "1.prems" by simp
      show ?thesis
      proof (cases "nat buf \<le> length ins")
        case full: True
        then have len: "int (length (take (nat buf) ins)) = buf"
          using "1.prems" by simp
        have ih: "copy_chunks buf (drop (nat buf) ins) (w + buf) (out @ take (nat buf) ins) (tot + buf) =
           (None, drop (chunk_room buf (w + buf)) (drop (nat buf) ins),
            (out @ take (nat buf) ins) @ take (chunk_room buf (w + buf)) (drop (nat buf) ins),
            (tot + buf) + int (min (length (drop (nat buf) ins)) (chunk_room buf (w + buf))))"
          using "1.IH" [OF True rd refl chunk "1.prems"] by (simp only: len)
        have "copy_chunks buf ins w out tot =
            copy_chunks buf (drop (nat buf) ins) (w + buf) (out @ take (nat buf) ins) (tot + buf)"
          using True rd chunk len by (subst copy_chunks.simps) simp
        also note ih
        also have "drop (chunk_room buf (w + buf)) (drop (nat buf) ins) = drop (chunk_room buf w) ins"
          by (simp add: room add.commute)
        also have "(out @ take (nat buf) ins) @ take (chunk_room buf (w + buf)) (drop (nat buf) ins)
            = out @ take (chunk_room buf w) ins"
          by (simp add: room take_add)
        also have "(tot + buf) + int (min (length (drop (nat buf) ins)) (chunk_room buf (w + buf)))
            = tot + int (min (length ins) (chunk_room buf w))"
          using full "1.prems" unfolding room by (cases "length ins - nat buf \<le> chunk_room buf (w + buf)") simp_all
        finally show ?thesis .
      next
        case short: False
        then have len: "length (take (nat buf) ins) = length ins" by simp
        have tk: "take (nat buf) ins = ins" using short by simp
        have dr: "drop (nat buf) ins = []" using short by simp
        have "copy_chunks buf ins w out tot =
            copy_chunks buf [] (w + int (length ins)) (out @ ins) (tot + int (length ins))"
          using True rd chunk by (subst copy_chunks.simps) (simp add: tk dr)
        also have "\<dots> = (None, [], out @ ins, tot + int (length ins))"
        proof (cases "w + int (length ins) < MAX_SPLIT_SIZE")
          case True
          then show ?thesis
            using "1.prems" by (subst copy_chunks.simps) (simp add: stream_read_def)
        next
          case False
          then show ?thesis
            by (subst copy_chunks.simps) simp
        qed
        finally show ?thesis
          using short room by (simp add: min_def)
      qed
    qed
  qed
qed


lemma join_format_02_inj:
  assumes "join d (format_02 i) = join d (format_02 j)"
  shows "i = j"
proof -
  have h: "format_02 k \<noteq> [] \<and> hd (format_02 k) \<noteq> CHR ''/''" for k
    using format_02_free [of k] format_02_nonempty [of k] by (cases "format_02 k") auto
  have "format_02 i = format_02 j"
    using assms h [of i] h [of j] by (auto simp: join_def split: if_splits)
  then show ?thesis by (rule format_02_inj)
qed

lemma min_split_aux:
  fixes len c m :: nat
  shows "min len c + min (len - c) m = min len (m + c)"
  by arith

lemma min_split:
  fixes len c k :: nat
  shows "int (min len c) + int (min (len - c) ((k + 1) * c)) = int (min len ((Suc k + 1) * c))"
proof -
  have "(Suc k + 1) * c = (k + 1) * c + c" by simp
  then show ?thesis
    using min_split_aux [of len c "(k + 1) * c"] by (simp only: of_nat_add [symmetric])
qed

lemma split_loop_pos:
  assumes "0 < buf" "0 < sz"
  shows "0 \<le> tot \<Longrightarrow> tot + int (length ins) \<le> sz \<Longrightarrow>
    \<forall>i \<in> set idxs. join d (format_02 i) \<notin> dirs fs \<Longrightarrow> distinct idxs \<Longrightarrow>
    \<exists>fs'. split_loop d fname sz buf n idxs fs ins tot out =
        (None, fs', out @ map (\<lambda>k. progress_line fname sz n (idxs ! k)
                     (tot + int (min (length ins) ((k + 1) * fragment_capacity buf)))) [0..<length idxs])
      \<and> (\<forall>k < length idxs. files fs' (join d (format_02 (idxs ! k))) =
            Some (take (fragment_capacity buf) (drop (k * fragment_capacity buf) ins)))"
proof (induction idxs arbitrary: fs ins tot out)
  case Nil
  then show ?case by simp
next
  case (Cons i rest)
  let ?c = "fragment_capacity buf"
  let ?path = "join d (format_02 i)"
  let ?fs1 = "fs\<lparr>files := (files fs)(?path \<mapsto> [])\<rparr>"
  let ?fs2 = "?fs1\<lparr>files := (files ?fs1)(?path \<mapsto> take ?c ins)\<rparr>"
  let ?tot = "tot + int (min (length ins) ?c)"
  let ?line = "progress_line fname sz n i ?tot"
  have o: "open_wb fs ?path = Inr ?fs1"
    using Cons.prems(3) by (simp add: open_wb_def)
  have cc: "copy_chunks buf ins 0 [] tot = (None, drop ?c ins, take ?c ins, ?tot)"
    using copy_chunks_pos [OF assms(1), of ins 0 "[]" tot] by (simp add: fragment_capacity_def)
  have t0: "0 \<le> ?tot" using Cons.prems(1) by simp
  have t1: "?tot + int (length (drop ?c ins)) \<le> sz"
    using Cons.prems(2) by (simp add: min_def)
  have "?tot \<le> sz" using t1 by simp
  from truediv_no_overflow [OF t0 this assms(2)]
  obtain p where p: "truediv ?tot sz = Inr p" ..
  then have line: "\<lparr>split_number = int i + 1, splits = n, progress = p, bytes_total = ?tot,
      bytes_filesize = sz, name = fname,
      line_end = (if ?tot < sz then CHR 0x0D else CHR 0x0A)\<rparr> = ?line"
    by (simp add: progress_line_def)
  have step: "split_loop d fname sz buf n (i # rest) fs ins tot out =
      split_loop d fname sz buf n rest ?fs2 (drop ?c ins) ?tot (out @ [?line])"
    by (simp add: o cc p line Let_def)
  have d2: "\<forall>j \<in> set rest. join d (format_02 j) \<notin> dirs ?fs2"
    using Cons.prems(3) by simp
  from Cons.prems(4) have dr: "distinct rest" by simp
  from Cons.IH [OF t0 t1 d2 dr, of "out @ [?line]"] obtain fs' where
    r: "split_loop d fname sz buf n rest ?fs2 (drop ?c ins) ?tot (out @ [?line]) =
        (None, fs', (out @ [?line]) @ map (\<lambda>k. progress_line fname sz n (rest ! k)
                     (?tot + int (min (length (drop ?c ins)) ((k + 1) * ?c)))) [0..<length rest])"
    and f: "\<forall>k < length rest. files fs' (join d (format_02 (rest ! k))) =
            Some (take ?c (drop (k * ?c) (drop ?c ins)))"
    by blast
  define F where "F k = progress_line fname sz n ((i # rest) ! k)
                     (tot + int (min (length ins) ((k + 1) * ?c)))" for k
  define G where "G k = progress_line fname sz n (rest ! k)
                     (?tot + int (min (length (drop ?c ins)) ((k + 1) * ?c)))" for k
  have tots: "?tot + int (min (length (drop ?c ins)) ((k + 1) * ?c))
      = tot + int (min (length ins) ((Suc k + 1) * ?c))" for k
    using min_split [of "length ins" ?c k] by (simp only: length_drop add.assoc)
  have FG: "G k = F (Suc k)" for k
    unfolding F_def G_def by (simp only: tots nth_Cons_Suc)
  have F0: "F 0 = ?line"
    unfolding F_def by simp
  have "map G [0..<length rest] = map (\<lambda>k. F (Suc k)) [0..<length rest]"
    by (intro map_cong refl FG)
  then have "(out @ [F 0]) @ map G [0..<length rest] = out @ F 0 # map (\<lambda>k. F (Suc k)) [0..<length rest]"
    by simp
  then have "(out @ [?line]) @ map G [0..<length rest] = out @ F 0 # map (\<lambda>k. F (Suc k)) [0..<length rest]"
    by (simp only: F0)
  also have "\<dots> = out @ map F [0..<length (i # rest)]"
    by (simp only: map_upt_Suc length_Cons)
  finally have lines: "(out @ [?line]) @ map (\<lambda>k. progress_line fname sz n (rest ! k)
                     (?tot + int (min (length (drop ?c ins)) ((k + 1) * ?c)))) [0..<length rest]
      = out @ map (\<lambda>k. progress_line fname sz n ((i # rest) ! k)
                     (tot + int (min (length ins) ((k + 1) * ?c)))) [0..<length (i # rest)]"
    unfolding F_def G_def .
  have notin: "?path \<notin> (\<lambda>j. join d (format_02 j)) ` set rest"
    using Cons.prems(4) join_format_02_inj [of d i] by auto
  have first: "files fs' ?path = Some (take ?c ins)"
    using split_loop_frame [OF r] notin by simp
  have all: "files fs' (join d (format_02 ((i # rest) ! k))) = Some (take ?c (drop (k * ?c) ins))"
    if "k < length (i # rest)" for k
  proof (cases k)
    case 0
    with first show ?thesis by simp
  next
    case (Suc k')
    with that f show ?thesis by (simp add: add.commute)
  qed
  from step r lines all show ?case by auto
qed

lemma concat_fragments:
  "concat (map (\<lambda>k. take c (drop (k * c) xs)) [0..<n]) = take (n * c) xs"
proof (induction n)
  case 0
  show ?case by simp
next
  case (Suc n)
  have "Suc n * c = n * c + c" by simp
  then have "take (Suc n * c) xs = take (n * c) xs @ take c (drop (n * c) xs)"
    by (simp only: take_add)
  with Suc show ?case by simp
qed


text \<open>
  The whole call on an existing input of the stated size, with a positive buffer size and
  nothing in the way of its outputs: it returns, fragment \<open>k\<close> holds the bytes of the
  input from \<open>k * c\<close> on, at most \<open>c\<close> of them, where \<open>c\<close> is the capacity that the
  buffer size gives a fragment, and the progress lines carry the running totals.
\<close>

lemma split_file_pos:
  assumes "files fs filepath = Some content" and "int (length content) = filesize"
    and "num_splits filesize = Inr n" and "0 < buf_size"
    and "split_dir_of filepath \<notin> dom (files fs)"
    and "\<forall>k < nat n. join (split_dir_of filepath) (format_02 k) \<notin> dirs fs"
  shows "\<exists>fs'. split_file fs filepath filesize buf_size =
        (fs', map (\<lambda>k. progress_line (basename filepath) filesize n k
                     (int (min (length content) ((k + 1) * fragment_capacity buf_size)))) [0..<nat n],
         Inr (split_dir_of filepath))
      \<and> dirs fs' = insert (split_dir_of filepath) (dirs fs)
      \<and> (\<forall>k < nat n. files fs' (join (split_dir_of filepath) (format_02 k)) =
            Some (take (fragment_capacity buf_size) (drop (k * fragment_capacity buf_size) content)))
      \<and> (\<forall>p. p \<notin> (\<lambda>k. join (split_dir_of filepath) (format_02 k)) ` {..<nat n} \<longrightarrow> files fs' p = files fs p)"
proof -
  let ?d = "split_dir_of filepath"
  let ?fs1 = "fs\<lparr>dirs := insert ?d (dirs fs)\<rparr>"
  have m: "makedirs fs ?d = Inr ?fs1"
    using assms(5) by (simp add: makedirs_def)
  have o: "open_rb ?fs1 filepath = Inr content"
    using assms(1) by (simp add: open_rb_def)
  have unfold: "split_file fs filepath filesize buf_size =
      (case split_loop ?d (basename filepath) filesize buf_size n [0..<nat n] ?fs1 content 0 [] of
         (Some err, fs2, out) \<Rightarrow> (fs2, out, Inl err)
       | (None, fs2, out) \<Rightarrow> (fs2, out, Inr ?d))"
    by (simp add: split_file_def assms(3) m o Let_def)
  have nd: "\<forall>i \<in> set [0..<nat n]. join ?d (format_02 i) \<notin> dirs ?fs1"
    using assms(6) fragment_path_not_dir [of filepath] by auto
  obtain fs' where
    r: "split_loop ?d (basename filepath) filesize buf_size n [0..<nat n] ?fs1 content 0 [] =
        (None, fs', [] @ map (\<lambda>k. progress_line (basename filepath) filesize n ([0..<nat n] ! k)
                     (0 + int (min (length content) ((k + 1) * fragment_capacity buf_size)))) [0..<length [0..<nat n]])"
    and f: "\<forall>k < length [0..<nat n]. files fs' (join ?d (format_02 ([0..<nat n] ! k))) =
            Some (take (fragment_capacity buf_size) (drop (k * fragment_capacity buf_size) content))"
  proof (cases "nat n = 0")
    case True
    then show ?thesis using that [of ?fs1] by simp
  next
    case False
    have "filesize \<noteq> 0"
      using False assms(3) num_splits_zero by auto
    with assms(2) have "0 < filesize" by linarith
    from split_loop_pos [OF assms(4) this, of 0 content "[0..<nat n]" ?d ?fs1 "basename filepath" n "[]"] nd assms(2)
    show ?thesis using that by auto
  qed
  have lines: "[] @ map (\<lambda>k. progress_line (basename filepath) filesize n ([0..<nat n] ! k)
                     (0 + int (min (length content) ((k + 1) * fragment_capacity buf_size)))) [0..<length [0..<nat n]]
      = map (\<lambda>k. progress_line (basename filepath) filesize n k
                     (int (min (length content) ((k + 1) * fragment_capacity buf_size)))) [0..<nat n]"
    by (simp cong: map_cong)
  from split_loop_frame [OF r]
  have fr: "dirs fs' = insert ?d (dirs fs)"
    "\<forall>p. p \<notin> (\<lambda>k. join ?d (format_02 k)) ` {..<nat n} \<longrightarrow> files fs' p = files fs p"
    by (auto simp: lessThan_atLeast0)
  have "split_file fs filepath filesize buf_size =
        (fs', map (\<lambda>k. progress_line (basename filepath) filesize n k
                     (int (min (length content) ((k + 1) * fragment_capacity buf_size)))) [0..<nat n],
         Inr ?d)"
    unfolding unfold r lines by simp
  with fr f show ?thesis by auto
qed

lemma fragment_capacity_least:
  assumes "0 < buf_size"
  shows "MAX_SPLIT_SIZE \<le> int (fragment_capacity buf_size)"
proof -
  let ?a = "MAX_SPLIT_SIZE + buf_size - 1"
  have e: "(?a div buf_size) * buf_size + ?a mod buf_size = ?a"
    by (rule div_mult_mod_eq)
  have "?a mod buf_size < buf_size"
    using assms by simp
  with e have "MAX_SPLIT_SIZE \<le> (?a div buf_size) * buf_size"
    by linarith
  then show ?thesis
    by (simp add: fragment_capacity_def chunk_room_def)
qed

lemma fragment_capacity_dvd:
  assumes "0 < buf_size" "buf_size dvd MAX_SPLIT_SIZE"
  shows "int (fragment_capacity buf_size) = MAX_SPLIT_SIZE"
proof -
  from assms(2) obtain q where q: "MAX_SPLIT_SIZE = buf_size * q" ..
  have "(buf_size * q + (buf_size - 1)) div buf_size = q + (buf_size - 1) div buf_size"
    using assms(1) by (simp add: div_mult_self4)
  also have "(buf_size - 1) div buf_size = 0"
    using assms(1) by (intro div_pos_pos_trivial) simp_all
  finally have "(MAX_SPLIT_SIZE + buf_size - 1) div buf_size = q"
    by (simp add: q algebra_simps)
  then show ?thesis
    by (simp add: fragment_capacity_def chunk_room_def q MAX_SPLIT_SIZE_value [symmetric] mult.commute)
       (simp add: q [symmetric] MAX_SPLIT_SIZE_value)
qed

lemma fragment_capacity_default: "fragment_capacity THIRTY_TWO_KB = 4294901760"
  by (simp add: fragment_capacity_def chunk_room_def THIRTY_TWO_KB_def ONE_KB_def MAX_SPLIT_SIZE_value)

lemma fragment_capacity_one_mb: "fragment_capacity (2 ^ 20) = 4294967296"
  by (simp add: fragment_capacity_def chunk_room_def MAX_SPLIT_SIZE_value)

section \<open>Inputs within the range of exact fragment counts\<close>

lemma ceil_div_covers:
  fixes a b :: int
  assumes "0 < b"
  shows "a \<le> ((a + b - 1) div b) * b" "((a + b - 1) div b) * b < a + b"
proof -
  let ?a = "a + b - 1"
  have e: "(?a div b) * b + ?a mod b = ?a"
    by (rule div_mult_mod_eq)
  have "?a mod b < b" "0 \<le> ?a mod b"
    using assms by simp_all
  with e show "a \<le> (?a div b) * b" "(?a div b) * b < a + b"
    by linarith+
qed

lemma fragments_cover:
  assumes "0 \<le> filesize" "filesize \<le> 2 ^ 22 * MAX_SPLIT_SIZE" "num_splits filesize = Inr n"
    and "0 < buf_size"
  shows "filesize \<le> int (nat n * fragment_capacity buf_size)"
proof -
  have n: "n = (filesize + MAX_SPLIT_SIZE - 1) div MAX_SPLIT_SIZE"
    using num_splits_exact [OF assms(1,2)] assms(3) by simp
  have b: "0 < MAX_SPLIT_SIZE" by (simp add: MAX_SPLIT_SIZE_value)
  have c: "filesize \<le> n * MAX_SPLIT_SIZE"
    unfolding n by (rule ceil_div_covers(1) [OF b])
  have n0: "0 \<le> n"
    unfolding n using assms(1) b by (simp add: pos_imp_zdiv_nonneg_iff)
  have "n * MAX_SPLIT_SIZE \<le> n * int (fragment_capacity buf_size)"
    using n0 fragment_capacity_least [OF assms(4)] by (rule mult_left_mono [rotated])
  with c n0 show ?thesis by simp
qed

text \<open>
  Up to \<open>2 ^ 22 * MAX_SPLIT_SIZE\<close> bytes the fragments, in the order of their indices,
  make up the input again, their sizes add up to its size, and the last progress line
  carries the whole size.
\<close>

lemma split_file_roundtrip:
  assumes "files fs filepath = Some content" and "int (length content) = filesize"
    and "num_splits filesize = Inr n" and "0 < buf_size"
    and "split_dir_of filepath \<notin> dom (files fs)"
    and "\<forall>k < nat n. join (split_dir_of filepath) (format_02 k) \<notin> dirs fs"
    and "filesize \<le> 2 ^ 22 * MAX_SPLIT_SIZE"
  shows "\<exists>fs' out. split_file fs filepath filesize buf_size = (fs', out, Inr (split_dir_of filepath))
      \<and> reassemble fs' (split_dir_of filepath) (nat n) = content
      \<and> sum_list (map length (fragment_files fs' (split_dir_of filepath) (nat n))) = length content
      \<and> length out = nat n
      \<and> (out \<noteq> [] \<longrightarrow> bytes_total (last out) = filesize)"
proof -
  let ?c = "fragment_capacity buf_size"
  let ?d = "split_dir_of filepath"
  from split_file_pos [OF assms(1-6)] obtain fs' where
    r: "split_file fs filepath filesize buf_size =
        (fs', map (\<lambda>k. progress_line (basename filepath) filesize n k
                     (int (min (length content) ((k + 1) * ?c)))) [0..<nat n], Inr ?d)"
    and f: "\<forall>k < nat n. files fs' (join ?d (format_02 k)) = Some (take ?c (drop (k * ?c) content))"
    by blast
  have sz: "0 \<le> filesize" using assms(2) by simp
  have "int (length content) \<le> int (nat n * ?c)"
    unfolding assms(2) by (rule fragments_cover [OF sz assms(7,3,4)])
  then have cover: "length content \<le> nat n * ?c"
    by linarith
  have m: "map (\<lambda>k. the (files fs' (join ?d (format_02 k)))) [0..<nat n]
      = map (\<lambda>k. take ?c (drop (k * ?c) content)) [0..<nat n]"
    using f by (intro map_cong refl) simp
  have 1: "concat (map (\<lambda>k. the (files fs' (join ?d (format_02 k)))) [0..<nat n]) = content"
    using cover by (simp only: m concat_fragments) simp
  have "sum_list (map (\<lambda>k. length (the (files fs' (join ?d (format_02 k))))) [0..<nat n])
      = length (concat (map (\<lambda>k. the (files fs' (join ?d (format_02 k)))) [0..<nat n]))"
    by (simp add: length_concat comp_def)
  then have 2: "sum_list (map (\<lambda>k. length (the (files fs' (join ?d (format_02 k))))) [0..<nat n])
      = length content"
    by (simp only: 1)
  define F where "F k = progress_line (basename filepath) filesize n k
                     (int (min (length content) ((k + 1) * ?c)))" for k
  have out: "map (\<lambda>k. progress_line (basename filepath) filesize n k
                     (int (min (length content) ((k + 1) * ?c)))) [0..<nat n] = map F [0..<nat n]"
    unfolding F_def ..
  have 3: "length (map F [0..<nat n]) = nat n" by simp
  have 4: "bytes_total (last (map F [0..<nat n])) = filesize" if "map F [0..<nat n] \<noteq> []"
  proof -
    from that have pos: "0 < nat n" by simp
    then have "last (map F [0..<nat n]) = F (nat n - 1)"
      by (simp add: last_map last_upt)
    moreover have "bytes_total (F (nat n - 1)) = int (min (length content) ((nat n - 1 + 1) * ?c))"
      unfolding F_def by (simp add: progress_line_def)
    moreover have "nat n - 1 + 1 = nat n" using pos by simp
    ultimately have "bytes_total (last (map F [0..<nat n])) = int (min (length content) (nat n * ?c))"
      by simp
    with cover assms(2) show ?thesis by simp
  qed
  note r = r [unfolded out]
  have whole: "reassemble fs' ?d (nat n) = content"
    unfolding reassemble_def fragment_files_def by (rule 1)
  have total: "sum_list (map length (fragment_files fs' ?d (nat n))) = length content"
    unfolding fragment_files_def using 2 by (simp add: comp_def)
  from r whole total 3 4 show ?thesis by blast
qed

text \<open>
  When the buffer size divides \<open>MAX_SPLIT_SIZE\<close>, as the default does, every fragment but
  the last has \<open>MAX_SPLIT_SIZE\<close> bytes and the last has the rest, up to the same bound on
  the size of the input.
\<close>

lemma split_file_fragment_sizes:
  assumes "files fs filepath = Some content" and "int (length content) = filesize"
    and "num_splits filesize = Inr n" and "0 < buf_size"
    and "split_dir_of filepath \<notin> dom (files fs)"
    and "\<forall>k < nat n. join (split_dir_of filepath) (format_02 k) \<notin> dirs fs"
    and "filesize \<le> 2 ^ 22 * MAX_SPLIT_SIZE" and "buf_size dvd MAX_SPLIT_SIZE"
  shows "\<exists>fs' out. split_file fs filepath filesize buf_size = (fs', out, Inr (split_dir_of filepath))
      \<and> (\<forall>k < nat n. \<exists>fragment. files fs' (join (split_dir_of filepath) (format_02 k)) = Some fragment
            \<and> int (length fragment) =
                (if int k + 1 < n then MAX_SPLIT_SIZE else filesize - (n - 1) * MAX_SPLIT_SIZE)
            \<and> 0 < length fragment \<and> int (length fragment) \<le> MAX_SPLIT_SIZE)"
proof -
  let ?c = "fragment_capacity buf_size"
  let ?d = "split_dir_of filepath"
  from split_file_pos [OF assms(1-6)] obtain fs' out where
    r: "split_file fs filepath filesize buf_size = (fs', out, Inr ?d)"
    and f: "\<forall>k < nat n. files fs' (join ?d (format_02 k)) = Some (take ?c (drop (k * ?c) content))"
    by blast
  have c: "int ?c = MAX_SPLIT_SIZE"
    by (rule fragment_capacity_dvd [OF assms(4,8)])
  have b: "0 < MAX_SPLIT_SIZE" by (simp add: MAX_SPLIT_SIZE_value)
  have sz: "0 \<le> filesize" using assms(2) by simp
  have n: "n = (filesize + MAX_SPLIT_SIZE - 1) div MAX_SPLIT_SIZE"
    using num_splits_exact [OF sz assms(7)] assms(3) by simp
  have up: "filesize \<le> n * MAX_SPLIT_SIZE" and lo: "n * MAX_SPLIT_SIZE < filesize + MAX_SPLIT_SIZE"
    unfolding n by (rule ceil_div_covers [OF b])+
  have sizes: "int (length (take ?c (drop (k * ?c) content))) =
                (if int k + 1 < n then MAX_SPLIT_SIZE else filesize - (n - 1) * MAX_SPLIT_SIZE)
            \<and> 0 < length (take ?c (drop (k * ?c) content))
            \<and> int (length (take ?c (drop (k * ?c) content))) \<le> MAX_SPLIT_SIZE" if "k < nat n" for k
  proof -
    have len: "int (length (take ?c (drop (k * ?c) content)))
        = min MAX_SPLIT_SIZE (int (length content - k * ?c))"
      by (simp add: c [symmetric])
    have kc: "int (k * ?c) = int k * MAX_SPLIT_SIZE"
      by (simp add: c)
    have kn: "int k + 1 \<le> n" using that by linarith
    then have "(int k + 1) * MAX_SPLIT_SIZE \<le> n * MAX_SPLIT_SIZE"
      using b by (intro mult_right_mono) simp_all
    with lo have below: "int k * MAX_SPLIT_SIZE < filesize"
      by (simp add: algebra_simps)
    then have rest: "int (length content - k * ?c) = filesize - int k * MAX_SPLIT_SIZE"
      using assms(2) kc by linarith
    define l where "l = int (length (take ?c (drop (k * ?c) content)))"
    have l: "l = min MAX_SPLIT_SIZE (filesize - int k * MAX_SPLIT_SIZE)"
      unfolding l_def len rest ..
    have "l = (if int k + 1 < n then MAX_SPLIT_SIZE else filesize - (n - 1) * MAX_SPLIT_SIZE)
        \<and> 0 < l \<and> l \<le> MAX_SPLIT_SIZE"
    proof (cases "int k + 1 < n")
      case True
      then have "int k + 2 \<le> n" by simp
      then have "(int k + 2) * MAX_SPLIT_SIZE \<le> n * MAX_SPLIT_SIZE"
        using b by (intro mult_right_mono) simp_all
      with lo have "MAX_SPLIT_SIZE \<le> filesize - int k * MAX_SPLIT_SIZE"
        by (simp add: algebra_simps)
      with True b show ?thesis
        unfolding l by simp
    next
      case False
      with kn have k: "int k = n - 1" by simp
      have "filesize - (n - 1) * MAX_SPLIT_SIZE \<le> MAX_SPLIT_SIZE"
        using up by (simp add: algebra_simps)
      moreover have "0 < filesize - (n - 1) * MAX_SPLIT_SIZE"
        using below k by simp
      ultimately show ?thesis
        using False unfolding l k by simp
    qed
    then show ?thesis
      unfolding l_def by simp
  qed
  have "\<exists>fragment. files fs' (join ?d (format_02 k)) = Some fragment
            \<and> int (length fragment) =
                (if int k + 1 < n then MAX_SPLIT_SIZE else filesize - (n - 1) * MAX_SPLIT_SIZE)
            \<and> 0 < length fragment \<and> int (length fragment) \<le> MAX_SPLIT_SIZE" if "k < nat n" for k
    using f that sizes [OF that] by blast
  with r show ?thesis by blast
qed

section \<open>Inputs beyond the range, and buffers that do not divide the fragment size\<close>

lemma huge_size_value: "huge_size = 18014123631575041"
  by (simp add: huge_size_def MAX_SPLIT_SIZE_value)

lemma num_splits_huge: "num_splits huge_size = Inr 4194304"
  using num_splits_large by (simp add: huge_size_def)

lemma split_dir_of_huge: "split_dir_of ''huge.nsp'' = ''huge.split.nsp''"
  by (simp add: path_eval)

lemma fragment_path_huge: "join ''huge.split.nsp'' (format_02 k) = ''huge.split.nsp/'' @ format_02 k"
  using fragment_path [of "''huge.nsp''" k] by (simp add: split_dir_of_huge)

text \<open>The call on the huge file with the default buffer size.\<close>

lemma split_file_huge:
  "\<exists>fs'. split_file fs_huge ''huge.nsp'' huge_size THIRTY_TWO_KB =
        (fs', map (\<lambda>k. progress_line ''huge.nsp'' huge_size 4194304 k
                     (int (min 18014123631575041 ((k + 1) * 4294901760)))) [0..<4194304],
         Inr ''huge.split.nsp'')
      \<and> (\<forall>k < 4194304. files fs' (''huge.split.nsp/'' @ format_02 k) =
            Some (take 4294901760 (drop (k * 4294901760) (replicate 18014123631575041 0))))
      \<and> (\<forall>p. p \<notin> (\<lambda>k. ''huge.split.nsp/'' @ format_02 k) ` {..<4194304} \<longrightarrow> files fs' p = files fs_huge p)"
proof -
  have 1: "files fs_huge ''huge.nsp'' = Some (replicate 18014123631575041 0)"
    by (simp add: fs_huge_def huge_size_value)
  have 2: "int (length (replicate 18014123631575041 (0::byte))) = huge_size"
    by (simp add: huge_size_value)
  have 4: "0 < THIRTY_TWO_KB"
    by (simp add: THIRTY_TWO_KB_def ONE_KB_def)
  have 5: "split_dir_of ''huge.nsp'' \<notin> dom (files fs_huge)"
    by (simp add: split_dir_of_huge fs_huge_def)
  have 6: "\<forall>k < nat 4194304. join (split_dir_of ''huge.nsp'') (format_02 k) \<notin> dirs fs_huge"
    by (simp add: fs_huge_def)
  have b: "basename ''huge.nsp'' = ''huge.nsp''"
    by (simp add: basename_def after_last_def)
  from split_file_pos [OF 1 2 num_splits_huge 4 5 6] obtain fs' where
    r: "split_file fs_huge ''huge.nsp'' huge_size THIRTY_TWO_KB =
        (fs', map (\<lambda>k. progress_line ''huge.nsp'' huge_size 4194304 k
                     (int (min 18014123631575041 ((k + 1) * 4294901760)))) [0..<4194304],
         Inr ''huge.split.nsp'')"
    and f: "\<forall>k < 4194304. files fs' (''huge.split.nsp/'' @ format_02 k) =
            Some (take 4294901760 (drop (k * 4294901760) (replicate 18014123631575041 0)))"
    and o: "\<forall>p. p \<notin> (\<lambda>k. ''huge.split.nsp/'' @ format_02 k) ` {..<4194304} \<longrightarrow> files fs' p = files fs_huge p"
    unfolding split_dir_of_huge fragment_path_huge fragment_capacity_default b
    by auto
  then show ?thesis by blast
qed


text \<open>
  Claim C1 fails on the huge file: the call returns, and the fragments, read in the order
  of their indices, hold one byte less than the input.
\<close>

theorem split_file_huge_loses_a_byte:
  "files fs_huge ''huge.nsp'' = Some (replicate 18014123631575041 0)
   \<and> huge_size = 18014123631575041
   \<and> snd (snd (split_file fs_huge ''huge.nsp'' huge_size THIRTY_TWO_KB)) = Inr ''huge.split.nsp''
   \<and> reassemble (fst (split_file fs_huge ''huge.nsp'' huge_size THIRTY_TWO_KB)) ''huge.split.nsp'' 4194304
       = replicate 18014123631575040 0
   \<and> sum_list (map length
        (fragment_files (fst (split_file fs_huge ''huge.nsp'' huge_size THIRTY_TWO_KB)) ''huge.split.nsp'' 4194304))
       = 18014123631575040"
proof -
  obtain fs' where r: "split_file fs_huge ''huge.nsp'' huge_size THIRTY_TWO_KB =
        (fs', map (\<lambda>k. progress_line ''huge.nsp'' huge_size 4194304 k
                     (int (min 18014123631575041 ((k + 1) * 4294901760)))) [0..<4194304],
         Inr ''huge.split.nsp'')"
    and f: "\<forall>k < 4194304. files fs' (''huge.split.nsp/'' @ format_02 k) =
            Some (take 4294901760 (drop (k * 4294901760) (replicate 18014123631575041 0)))"
    using split_file_huge by blast
  have m: "fragment_files fs' ''huge.split.nsp'' 4194304
      = map (\<lambda>k. take 4294901760 (drop (k * 4294901760) (replicate 18014123631575041 0))) [0..<4194304]"
    unfolding fragment_files_def fragment_path_huge
    by (intro map_cong refl) (simp only: f option.sel atLeastLessThan_iff set_upt)
  have c: "reassemble fs' ''huge.split.nsp'' 4194304 = replicate 18014123631575040 0"
    unfolding reassemble_def m concat_fragments by simp
  have "sum_list (map length (fragment_files fs' ''huge.split.nsp'' 4194304))
      = length (reassemble fs' ''huge.split.nsp'' 4194304)"
    by (simp add: reassemble_def length_concat)
  then have s: "sum_list (map length (fragment_files fs' ''huge.split.nsp'' 4194304)) = 18014123631575040"
    unfolding c by simp
  have 1: "files fs_huge ''huge.nsp'' = Some (replicate 18014123631575041 0)"
    by (simp add: fs_huge_def huge_size_value)
  from 1 huge_size_value c s show ?thesis
    unfolding r by simp
qed


text \<open>
  Claim C2 fails on the huge file: the exact ceiling is \<open>4194305\<close>, the count computed
  through the float is \<open>4194304\<close>, and the fragment with index \<open>4194304\<close> is never
  written.
\<close>

theorem split_file_huge_fragment_count:
  "num_splits huge_size = Inr 4194304
   \<and> (huge_size + MAX_SPLIT_SIZE - 1) div MAX_SPLIT_SIZE = 4194305
   \<and> files (fst (split_file fs_huge ''huge.nsp'' huge_size THIRTY_TWO_KB)) ''huge.split.nsp/4194303''
       = Some (replicate 4294901760 0)
   \<and> files (fst (split_file fs_huge ''huge.nsp'' huge_size THIRTY_TWO_KB)) ''huge.split.nsp/4194304''
       = None"
proof -
  obtain fs' where r: "split_file fs_huge ''huge.nsp'' huge_size THIRTY_TWO_KB =
        (fs', map (\<lambda>k. progress_line ''huge.nsp'' huge_size 4194304 k
                     (int (min 18014123631575041 ((k + 1) * 4294901760)))) [0..<4194304],
         Inr ''huge.split.nsp'')"
    and f: "\<forall>k < 4194304. files fs' (''huge.split.nsp/'' @ format_02 k) =
            Some (take 4294901760 (drop (k * 4294901760) (replicate 18014123631575041 0)))"
    and o: "\<forall>p. p \<notin> (\<lambda>k. ''huge.split.nsp/'' @ format_02 k) ` {..<4194304} \<longrightarrow> files fs' p = files fs_huge p"
    using split_file_huge by blast
  have n1: "format_02 4194303 = ''4194303''" and n2: "format_02 4194304 = ''4194304''"
    by (simp_all add: format_02_def decimal.simps digit_char_def Let_def)
  have a: "files fs' ''huge.split.nsp/4194303'' = Some (replicate 4294901760 0)"
    using f [rule_format, of 4194303] by (simp add: n1)
  have "''huge.split.nsp/4194304'' \<notin> (\<lambda>k. ''huge.split.nsp/'' @ format_02 k) ` {..<4194304}"
  proof
    assume "''huge.split.nsp/4194304'' \<in> (\<lambda>k. ''huge.split.nsp/'' @ format_02 k) ` {..<4194304}"
    then obtain k where k: "k < 4194304" "''huge.split.nsp/4194304'' = ''huge.split.nsp/'' @ format_02 k"
      by blast
    then have "format_02 k = format_02 4194304" by (simp add: n2)
    then have "k = 4194304" by (rule format_02_inj)
    with k(1) show False by simp
  qed
  with o have b: "files fs' ''huge.split.nsp/4194304'' = None"
    by (simp add: fs_huge_def)
  have c: "(huge_size + MAX_SPLIT_SIZE - 1) div MAX_SPLIT_SIZE = 4194305"
    by (simp add: huge_size_value MAX_SPLIT_SIZE_value)
  from num_splits_huge a b c show ?thesis
    unfolding r by simp
qed

text \<open>
  Claim C8 fails on the huge file: the last progress line carries a total one byte short
  of the size of the file, and ends like a line that is not the last.
\<close>

theorem split_file_huge_last_report:
  "length (fst (snd (split_file fs_huge ''huge.nsp'' huge_size THIRTY_TWO_KB))) = 4194304
   \<and> split_number (last (fst (snd (split_file fs_huge ''huge.nsp'' huge_size THIRTY_TWO_KB)))) = 4194304
   \<and> splits (last (fst (snd (split_file fs_huge ''huge.nsp'' huge_size THIRTY_TWO_KB)))) = 4194304
   \<and> bytes_total (last (fst (snd (split_file fs_huge ''huge.nsp'' huge_size THIRTY_TWO_KB)))) = 18014123631575040
   \<and> bytes_filesize (last (fst (snd (split_file fs_huge ''huge.nsp'' huge_size THIRTY_TWO_KB)))) = 18014123631575041
   \<and> line_end (last (fst (snd (split_file fs_huge ''huge.nsp'' huge_size THIRTY_TWO_KB)))) = CHR 0x0D"
proof -
  define F where "F k = progress_line ''huge.nsp'' huge_size 4194304 k
                     (int (min 18014123631575041 ((k + 1) * 4294901760)))" for k
  obtain fs' where "split_file fs_huge ''huge.nsp'' huge_size THIRTY_TWO_KB =
        (fs', map (\<lambda>k. progress_line ''huge.nsp'' huge_size 4194304 k
                     (int (min 18014123631575041 ((k + 1) * 4294901760)))) [0..<4194304],
         Inr ''huge.split.nsp'')"
    using split_file_huge by blast
  then have r: "fst (snd (split_file fs_huge ''huge.nsp'' huge_size THIRTY_TWO_KB)) = map F [0..<4194304]"
    unfolding F_def by simp
  have l: "last (map F [0..<4194304]) = F 4194303"
    by (simp add: last_map last_upt)
  have v: "F 4194303 = progress_line ''huge.nsp'' huge_size 4194304 4194303 18014123631575040"
    unfolding F_def by simp
  show ?thesis
    unfolding r l v by (simp add: progress_line_def huge_size_value)
qed

lemma num_splits_over: "num_splits 4294901761 = Inr 2"
  by (simp add: float_eval)

text \<open>
  Claim C3 fails with a buffer of one megabyte on a file of \<open>MAX_SPLIT_SIZE + 1\<close> bytes:
  the first fragment takes all of them, one more than \<open>MAX_SPLIT_SIZE\<close>, and the second
  and last fragment is empty.
\<close>

theorem split_file_overfull_fragment:
  "files fs_over ''over.nsp'' = Some (replicate 4294901761 0)
   \<and> MAX_SPLIT_SIZE = 4294901760 \<and> ONE_MB = 1048576
   \<and> num_splits 4294901761 = Inr 2
   \<and> snd (snd (split_file fs_over ''over.nsp'' 4294901761 ONE_MB)) = Inr ''over.split.nsp''
   \<and> files (fst (split_file fs_over ''over.nsp'' 4294901761 ONE_MB)) ''over.split.nsp/00''
       = Some (replicate 4294901761 0)
   \<and> files (fst (split_file fs_over ''over.nsp'' 4294901761 ONE_MB)) ''over.split.nsp/01''
       = Some []"
proof -
  have d: "split_dir_of ''over.nsp'' = ''over.split.nsp''"
    by (simp add: path_eval)
  have 1: "files fs_over ''over.nsp'' = Some (replicate 4294901761 0)"
    by (simp add: fs_over_def MAX_SPLIT_SIZE_value)
  have 2: "int (length (replicate 4294901761 (0::byte))) = 4294901761"
    by simp
  have 4: "0 < ONE_MB" and mb: "ONE_MB = 1048576"
    by (simp_all add: ONE_MB_def)
  have 5: "split_dir_of ''over.nsp'' \<notin> dom (files fs_over)"
    by (simp add: d fs_over_def)
  have 6: "\<forall>k < nat 2. join (split_dir_of ''over.nsp'') (format_02 k) \<notin> dirs fs_over"
    by (simp add: fs_over_def)
  have c: "fragment_capacity ONE_MB = 4294967296"
    using fragment_capacity_one_mb by (simp add: ONE_MB_def)
  have p: "join ''over.split.nsp'' (format_02 k) = ''over.split.nsp/'' @ format_02 k" for k
    using fragment_path [of "''over.nsp''" k] by (simp add: d)
  have n: "format_02 0 = ''00''" "format_02 (Suc 0) = ''01''"
    by (simp_all add: format_02_def decimal.simps digit_char_def Let_def)
  from split_file_pos [OF 1 2 num_splits_over 4 5 6] obtain fs' out where
    r: "split_file fs_over ''over.nsp'' 4294901761 ONE_MB = (fs', out, Inr ''over.split.nsp'')"
    and f: "\<forall>k < 2. files fs' (''over.split.nsp/'' @ format_02 k) =
            Some (take 4294967296 (drop (k * 4294967296) (replicate 4294901761 0)))"
    unfolding d p c by auto
  have a: "files fs' ''over.split.nsp/00'' = Some (replicate 4294901761 0)"
    using f [rule_format, of 0] by (simp add: n)
  have b: "files fs' ''over.split.nsp/01'' = Some []"
    using f [rule_format, of 1] by (simp add: n)
  from 1 MAX_SPLIT_SIZE_value mb num_splits_over a b show ?thesis
    unfolding r by simp
qed

end
